theory Spec2Isabelle
  imports Complex_Main "HOL-Library.Multiset"
begin

section \<open>Monte Carlo tree search for knight's Isolation (my_custom_player.py)\<close>

text \<open>
  The development embeds \<^verbatim>\<open>MCTSNode\<close>, \<^verbatim>\<open>MCTSSearch\<close> and
  \<^verbatim>\<open>CustomPlayer.get_action\<close>. Nodes are Python objects that refer to each other
  (\<^verbatim>\<open>parent\<close>, \<^verbatim>\<open>children\<close>) and are mutated in place, so they live in an
  explicit store: a list of node records, the address of a node being its index, and
  allocation appending to the list. Python exceptions are values of type \<open>error\<close>.
  Python floats are modelled by the reals: the float results of \<^verbatim>\<open>/\<close>,
  \<^verbatim>\<open>math.log\<close> and \<^verbatim>\<open>math.sqrt\<close> are idealised, their domain errors are kept.
\<close>

subsection \<open>Exceptions\<close>

datatype error = ValueError | ZeroDivisionError | IndexError

subsection \<open>The game state interface (module isolation, not part of the sources)\<close>

text \<open>
  The class \<^verbatim>\<open>isolation\<close> is imported, not defined, by the file. Its methods are taken
  as parameters. \<open>state_utility\<close> stands for \<^verbatim>\<open>state.utility(player)\<close>, whose float
  result is only ever compared with plus and minus infinity; \<open>action_truthy\<close>
  is the truth value Python gives to an action object in \<^verbatim>\<open>if next_action:\<close>.
\<close>

datatype py_utility = PosInf | NegInf | Finite

record ('s, 'a, 'l) game =
  player :: "'s \<Rightarrow> int"
  actions :: "'s \<Rightarrow> 'a list"
  result :: "'s \<Rightarrow> 'a \<Rightarrow> 's"
  terminal_test :: "'s \<Rightarrow> bool"
  state_utility :: "'s \<Rightarrow> int \<Rightarrow> py_utility"
  locs :: "'s \<Rightarrow> int \<Rightarrow> 'l"
  liberties :: "'s \<Rightarrow> 'l \<Rightarrow> 'l list"
  ply_count :: "'s \<Rightarrow> int"
  action_truthy :: "'a \<Rightarrow> bool"

subsection \<open>Random choices\<close>

text \<open>
  \<^verbatim>\<open>random.choice(seq)\<close> raises IndexError on an empty sequence and otherwise returns
  one of its elements. The number drawn is an input of the model.
\<close>

definition random_choice :: "nat \<Rightarrow> 'a list \<Rightarrow> error + 'a" where
  "random_choice r xs = (if xs = [] then Inl IndexError else Inr (xs ! (r mod length xs)))"

subsection \<open>MCTSNode\<close>

record ('s, 'a) MCTSNode =
  state :: 's
  parent :: "nat option"
  children :: "nat list"
  action :: "'a option"
  visit :: int
  utility :: int
  untried_actions :: "'a list"

type_synonym ('s, 'a) heap = "('s, 'a) MCTSNode list"

text \<open>
  The constructor. The list that \<^verbatim>\<open>state.actions()\<close> returns is taken to be the node's
  own: \<^verbatim>\<open>expand\<close> removes elements from it in place.
\<close>

definition MCTSNode_init ::
  "('s, 'a, 'l) game \<Rightarrow> 's \<Rightarrow> 'a option \<Rightarrow> nat option \<Rightarrow> ('s, 'a) MCTSNode" where
  "MCTSNode_init g s a p =
     \<lparr>state = s, parent = p, children = [], action = a, visit = 0, utility = 0,
      untried_actions = actions g s\<rparr>"

definition is_fully_expanded :: "('s, 'a) MCTSNode \<Rightarrow> bool" where
  "is_fully_expanded n = (length (untried_actions n) = 0)"

definition is_terminal_node :: "('s, 'a, 'l) game \<Rightarrow> ('s, 'a) MCTSNode \<Rightarrow> bool" where
  "is_terminal_node g n = terminal_test g (state n)"

definition heuristic_score :: "('s, 'a, 'l) game \<Rightarrow> 's \<Rightarrow> int" where
  "heuristic_score g s =
     (let player_id = player g s;
          own_loc = locs g s player_id;
          opp_loc = locs g s (1 - player_id);
          own_liberties = liberties g s own_loc;
          opp_liberties = liberties g s opp_loc
      in int (length own_liberties) - int (length opp_liberties))"

text \<open>
  The score of child \<open>t\<close> in \<^verbatim>\<open>best_child\<close>:
  \<^verbatim>\<open>t.utility / t.visit + c_param * math.sqrt(2 * math.log(self.visit / t.visit))\<close>.
  Both divisions raise ZeroDivisionError when \<^verbatim>\<open>t.visit\<close> is zero, \<^verbatim>\<open>math.log\<close>
  raises ValueError outside the positive numbers and \<^verbatim>\<open>math.sqrt\<close> below zero.
\<close>

definition score :: "real \<Rightarrow> ('s, 'a) MCTSNode \<Rightarrow> ('s, 'a) MCTSNode \<Rightarrow> error + real" where
  "score c_param self t =
     (if visit t = 0 then Inl ZeroDivisionError
      else let q = real_of_int (visit self) / real_of_int (visit t) in
        if q \<le> 0 then Inl ValueError
        else let a = 2 * ln q in
          if a < 0 then Inl ValueError
          else Inr (real_of_int (utility t) / real_of_int (visit t) + c_param * sqrt a))"

text \<open>The \<^verbatim>\<open>for t in self.children\<close> loop, on the pair (maxscore, maxactions).\<close>

fun best_child_loop ::
  "real \<Rightarrow> ('s, 'a) heap \<Rightarrow> nat \<Rightarrow> nat list \<Rightarrow> real \<times> nat list \<Rightarrow> error + real \<times> nat list" where
  "best_child_loop c_param h self [] acc = Inr acc"
| "best_child_loop c_param h self (t # ts) (maxscore, maxactions) =
     (case score c_param (h ! self) (h ! t) of
        Inl e \<Rightarrow> Inl e
      | Inr sc \<Rightarrow>
          if sc > maxscore then best_child_loop c_param h self ts (sc, [t])
          else if sc = maxscore then best_child_loop c_param h self ts (maxscore, maxactions @ [t])
          else best_child_loop c_param h self ts (maxscore, maxactions))"

text \<open>\<^verbatim>\<open>max(xs)\<close> and \<^verbatim>\<open>xs.index(v)\<close>; both raise ValueError when there is no answer.\<close>

fun py_max :: "int list \<Rightarrow> error + int" where
  "py_max [] = Inl ValueError"
| "py_max (x # xs) = Inr (fold max xs x)"

fun py_index :: "int list \<Rightarrow> int \<Rightarrow> error + nat" where
  "py_index [] v = Inl ValueError"
| "py_index (x # xs) v =
     (if x = v then Inr 0
      else case py_index xs v of Inl e \<Rightarrow> Inl e | Inr i \<Rightarrow> Inr (Suc i))"

definition best_child ::
  "('s, 'a, 'l) game \<Rightarrow> real \<Rightarrow> ('s, 'a) heap \<Rightarrow> nat \<Rightarrow> error + nat" where
  "best_child g c_param h self =
     (case best_child_loop c_param h self (children (h ! self)) (- 999, []) of
        Inl e \<Rightarrow> Inl e
      | Inr (maxscore, maxactions) \<Rightarrow>
          (let helper_scores = map (\<lambda>x. heuristic_score g (state (h ! x))) maxactions in
           (case py_max helper_scores of
              Inl e \<Rightarrow> Inl e
            | Inr m \<Rightarrow>
                (case py_index helper_scores m of
                   Inl e \<Rightarrow> Inl e
                 | Inr i \<Rightarrow> Inr (maxactions ! i)))))"

text \<open>
  \<^verbatim>\<open>expand\<close>: the new child is allocated at the end of the store; \<^verbatim>\<open>list.remove\<close>
  deletes the first occurrence of the chosen action.
\<close>

definition expand ::
  "('s, 'a, 'l) game \<Rightarrow> nat \<Rightarrow> ('s, 'a) heap \<Rightarrow> nat \<Rightarrow> error + ('s, 'a) heap \<times> nat" where
  "expand g r h self =
     (case random_choice r (untried_actions (h ! self)) of
        Inl e \<Rightarrow> Inl e
      | Inr a \<Rightarrow>
          let n = h ! self;
              next_state = result g (state n) a;
              child_node = length h;
              h1 = h[self := n\<lparr>untried_actions := remove1 a (untried_actions n)\<rparr>] @
                   [MCTSNode_init g next_state (Some a) (Some self)];
              n1 = h1 ! self;
              h2 = h1[self := n1\<lparr>children := children n1 @ [child_node]\<rparr>]
          in Inr (h2, child_node))"

text \<open>
  The rollout loop of \<^verbatim>\<open>playout_policy\<close> draws one random number for each move; it
  is defined by recursion on the numbers supplied and returns \<open>None\<close> when they run
  out before a terminal state is reached.
\<close>

fun rollout :: "('s, 'a, 'l) game \<Rightarrow> nat list \<Rightarrow> 's \<Rightarrow> (error + 's) option" where
  "rollout g rs rollout_state =
     (if \<not> terminal_test g rollout_state then
        (case rs of
           [] \<Rightarrow> None
         | r # rs' \<Rightarrow>
             (case random_choice r (actions g rollout_state) of
                Inl e \<Rightarrow> Some (Inl e)
              | Inr a \<Rightarrow> rollout g rs' (result g rollout_state a)))
      else Some (Inr rollout_state))"

definition playout_policy ::
  "('s, 'a, 'l) game \<Rightarrow> nat list \<Rightarrow> ('s, 'a) MCTSNode \<Rightarrow> int \<Rightarrow> (error + int) option" where
  "playout_policy g rs self player_id =
     (case rollout g rs (state self) of
        None \<Rightarrow> None
      | Some (Inl e) \<Rightarrow> Some (Inl e)
      | Some (Inr rollout_state) \<Rightarrow>
          Some (Inr
            (if state_utility g rollout_state (1 - player g rollout_state) = PosInf then 1
             else if state_utility g rollout_state (1 - player g rollout_state) = NegInf then - 1
             else 0)))"

text \<open>
  \<^verbatim>\<open>backpropagate\<close> walks up the parent links. Nothing in the function bounds the
  walk, so it is a partial function: \<open>None\<close> is the walk that never ends.
\<close>

partial_function (option) backpropagate ::
  "('s, 'a) heap \<Rightarrow> nat \<Rightarrow> int \<Rightarrow> ('s, 'a) heap option" where
  "backpropagate h self res =
     (let n = h ! self;
          h1 = h[self := n\<lparr>visit := visit n + 1, utility := utility n + res\<rparr>];
          res1 = - res
      in case parent (h1 ! self) of
           None \<Rightarrow> Some h1
         | Some p \<Rightarrow> backpropagate h1 p res1)"

subsection \<open>MCTSSearch\<close>

record ('s, 'a) MCTSSearch =
  nodes :: "('s, 'a) heap"
  root :: nat
  player_id :: int
  node_no :: int

definition MCTSSearch_init :: "('s, 'a, 'l) game \<Rightarrow> ('s, 'a) heap \<Rightarrow> nat \<Rightarrow> ('s, 'a) MCTSSearch" where
  "MCTSSearch_init g h node =
     \<lparr>nodes = h, root = node, player_id = player g (state (h ! node)), node_no = 1\<rparr>"

partial_function (option) tree_policy_loop ::
  "('s, 'a, 'l) game \<Rightarrow> nat \<Rightarrow> ('s, 'a) MCTSSearch \<Rightarrow> nat \<Rightarrow>
   (error + ('s, 'a) MCTSSearch \<times> nat) option" where
  "tree_policy_loop g r s current_node =
     (if \<not> is_terminal_node g (nodes s ! current_node) then
        (if \<not> is_fully_expanded (nodes s ! current_node) then
           (case expand g r (nodes s) current_node of
              Inl e \<Rightarrow> Some (Inl e)
            | Inr (h, new_node) \<Rightarrow>
                Some (Inr (s\<lparr>nodes := h, node_no := node_no s + 1\<rparr>, new_node)))
         else
           (case best_child g 0.5 (nodes s) current_node of
              Inl e \<Rightarrow> Some (Inl e)
            | Inr c \<Rightarrow> tree_policy_loop g r s c))
      else Some (Inr (s, current_node)))"

definition tree_policy ::
  "('s, 'a, 'l) game \<Rightarrow> nat \<Rightarrow> ('s, 'a) MCTSSearch \<Rightarrow> (error + ('s, 'a) MCTSSearch \<times> nat) option" where
  "tree_policy g r s = tree_policy_loop g r s (root s)"

text \<open>
  One pass of the body of the \<^verbatim>\<open>while\<close> loop of \<^verbatim>\<open>best_action\<close>. Its random input
  is the number drawn by \<^verbatim>\<open>expand\<close> and the numbers drawn by the rollout. The node
  \<open>v\<close> is returned with the new search state.
\<close>

definition iteration ::
  "('s, 'a, 'l) game \<Rightarrow> nat \<times> nat list \<Rightarrow> ('s, 'a) MCTSSearch \<Rightarrow>
   (error + ('s, 'a) MCTSSearch \<times> nat) option" where
  "iteration g rnd s =
     (case tree_policy g (fst rnd) s of
        None \<Rightarrow> None
      | Some (Inl e) \<Rightarrow> Some (Inl e)
      | Some (Inr (s1, v)) \<Rightarrow>
          (case playout_policy g (snd rnd) (nodes s1 ! v) (player_id s1) of
             None \<Rightarrow> None
           | Some (Inl e) \<Rightarrow> Some (Inl e)
           | Some (Inr reward) \<Rightarrow>
               (case backpropagate (nodes s1) v reward of
                  None \<Rightarrow> None
                | Some h \<Rightarrow> Some (Inr (s1\<lparr>nodes := h\<rparr>, v)))))"

text \<open>
  \<^verbatim>\<open>allowed_time = math.ceil(simulations_time * 0.75)\<close>, in milliseconds.
\<close>

definition allowed_time :: "real \<Rightarrow> int" where
  "allowed_time simulations_time = \<lceil>simulations_time * 0.75\<rceil>"

text \<open>
  The \<^verbatim>\<open>while\<close> loop of \<^verbatim>\<open>best_action\<close>. Each test of the loop condition reads
  the clock once (\<^verbatim>\<open>time.time()\<close>, in seconds); the readings are an input, and the
  loop is defined by recursion on them: \<open>None\<close> stands for a run whose end is not
  covered by the readings and random numbers supplied.
\<close>

fun search_loop ::
  "('s, 'a, 'l) game \<Rightarrow> real \<Rightarrow> int \<Rightarrow> real list \<Rightarrow> (nat \<times> nat list) list \<Rightarrow>
   ('s, 'a) MCTSSearch \<Rightarrow> (error + ('s, 'a) MCTSSearch) option" where
  "search_loop g start allowed [] rnds s = None"
| "search_loop g start allowed (now # clock) rnds s =
     (if (now - start) * 1000 \<le> real_of_int allowed then
        (case rnds of
           [] \<Rightarrow> None
         | rnd # rnds' \<Rightarrow>
             (case iteration g rnd s of
                None \<Rightarrow> None
              | Some (Inl e) \<Rightarrow> Some (Inl e)
              | Some (Inr (s1, v)) \<Rightarrow> search_loop g start allowed clock rnds' s1))
      else Some (Inr s))"

definition best_action ::
  "('s, 'a, 'l) game \<Rightarrow> real list \<Rightarrow> (nat \<times> nat list) list \<Rightarrow> real \<Rightarrow> real \<Rightarrow>
   ('s, 'a) MCTSSearch \<Rightarrow> (error + 'a option) option" where
  "best_action g clock rnds simulations_time c_param s =
     (case clock of
        [] \<Rightarrow> None
      | start # clock' \<Rightarrow>
          (case search_loop g start (allowed_time simulations_time) clock' rnds s of
             None \<Rightarrow> None
           | Some (Inl e) \<Rightarrow> Some (Inl e)
           | Some (Inr s1) \<Rightarrow>
               (case best_child g c_param (nodes s1) (root s1) of
                  Inl e \<Rightarrow> Some (Inl e)
                | Inr next_node \<Rightarrow> Some (Inr (action (nodes s1 ! next_node))))))"

subsection \<open>CustomPlayer.get_action\<close>



subsection \<open>Auxiliary notions used by the statements\<close>

text \<open>
  The selection score as the specification writes it, a plain real number:
  the mean utility of the child plus the exploration term, with the visit count of the
  parent over that of the child inside the logarithm.
\<close>

definition selection_score :: "real \<Rightarrow> ('s, 'a) MCTSNode \<Rightarrow> ('s, 'a) MCTSNode \<Rightarrow> real" where
  "selection_score c_param self t =
     real_of_int (utility t) / real_of_int (visit t) +
     c_param * sqrt (2 * ln (real_of_int (visit self) / real_of_int (visit t)))"



text \<open>
  The node \<open>v\<close> followed by its ancestors, along the parent links. The walk stops at a
  node without parent; the test \<open>p < v\<close> only makes the definition total, and is true
  of every link in a store where parents are allocated before their children.
\<close>

function lineage :: "('s, 'a) heap \<Rightarrow> nat \<Rightarrow> nat list" where
  "lineage h v =
     (case parent (h ! v) of
        None \<Rightarrow> [v]
      | Some p \<Rightarrow> if p < v then v # lineage h p else [v])"
  by pat_completeness auto
termination
  by (relation "measure snd") auto

declare lineage.simps [simp del]

definition parents_below :: "('s, 'a) heap \<Rightarrow> bool" where
  "parents_below h \<longleftrightarrow> (\<forall>i < length h. \<forall>p. parent (h ! i) = Some p \<longrightarrow> p < i)"

text \<open>
  What one backpropagation pass along the nodes \<open>vs\<close> adds to the utility of node \<open>i\<close>,
  and whether the pass started at \<open>v\<close> goes through node \<open>i\<close>.
\<close>

fun signed_share :: "int \<Rightarrow> nat list \<Rightarrow> nat \<Rightarrow> int" where
  "signed_share r [] i = 0"
| "signed_share r (v # vs) i = (if i = v then r else signed_share (- r) vs i)"

definition touched :: "('s, 'a) heap \<Rightarrow> nat \<Rightarrow> nat \<Rightarrow> int" where
  "touched h v i = (if i \<in> set (lineage h v) then 1 else 0)"

text \<open>The search object that \<^verbatim>\<open>get_action\<close> builds: \<^verbatim>\<open>MCTSSearch(MCTSNode(state))\<close>.\<close>

definition fresh :: "('s, 'a, 'l) game \<Rightarrow> 's \<Rightarrow> ('s, 'a) MCTSSearch" where
  "fresh g st = MCTSSearch_init g [MCTSNode_init g st None None] 0"

subsection \<open>Invariants of the store\<close>

text \<open>
  A store is a tree rooted at address 0: the root has no parent, every other node has
  a parent allocated before it and is listed among the children of that parent, the
  children listed by a node are nodes of the store whose parent it is, and no child is
  listed twice.
\<close>

definition wf_heap :: "('s, 'a) heap \<Rightarrow> bool" where
  "wf_heap h \<longleftrightarrow>
     h \<noteq> [] \<and> parent (h ! 0) = None \<and>
     (\<forall>i < length h. 0 < i \<longrightarrow> (\<exists>p < i. parent (h ! i) = Some p \<and> i \<in> set (children (h ! p)))) \<and>
     (\<forall>i < length h. \<forall>c \<in> set (children (h ! i)). c < length h \<and> parent (h ! c) = Some i) \<and>
     (\<forall>i < length h. distinct (children (h ! i)))"

text \<open>
  The statistics: visit counts are not negative and a node has at least as many visits
  as its children together; every node other than the root, and possibly other than
  the node \<open>v\<close> just created, has been visited.
\<close>

definition child_visits :: "('s, 'a) heap \<Rightarrow> nat \<Rightarrow> int" where
  "child_visits h i = sum_list (map (\<lambda>c. visit (h ! c)) (children (h ! i)))"

definition visits_inv :: "('s, 'a) heap \<Rightarrow> bool" where
  "visits_inv h \<longleftrightarrow> (\<forall>i < length h. 0 \<le> visit (h ! i) \<and> child_visits h i \<le> visit (h ! i))"

definition visited_except :: "('s, 'a) heap \<Rightarrow> nat \<Rightarrow> bool" where
  "visited_except h v \<longleftrightarrow> (\<forall>i < length h. 0 < i \<longrightarrow> i \<noteq> v \<longrightarrow> 0 < visit (h ! i))"

text \<open>
  Expansion: the untried actions of a node and the incoming actions of its children
  are together the legal actions of its state, and each child holds the state that its
  incoming action leads to.
\<close>

definition child_actions :: "('s, 'a) heap \<Rightarrow> nat \<Rightarrow> 'a list" where
  "child_actions h i = map (\<lambda>c. the (action (h ! c))) (children (h ! i))"

definition expansion_inv :: "('s, 'a, 'l) game \<Rightarrow> ('s, 'a) heap \<Rightarrow> bool" where
  "expansion_inv g h \<longleftrightarrow>
     (\<forall>i < length h.
        mset (untried_actions (h ! i)) + mset (child_actions h i) = mset (actions g (state (h ! i))) \<and>
        (\<forall>c \<in> set (children (h ! i)).
           action (h ! c) \<noteq> None \<and> state (h ! c) = result g (state (h ! i)) (the (action (h ! c)))))"

text \<open>
  The store that \<^verbatim>\<open>expand\<close> leaves when it chooses action \<open>a\<close> on node \<open>self\<close>, and the
  relation between two stores that differ in visit counts and utilities only, as before
  and after a backpropagation pass.
\<close>

definition expanded ::
  "('s, 'a, 'l) game \<Rightarrow> ('s, 'a) heap \<Rightarrow> nat \<Rightarrow> 'a \<Rightarrow> ('s, 'a) heap" where
  "expanded g h self a =
     h[self := (h ! self)\<lparr>untried_actions := remove1 a (untried_actions (h ! self)),
                          children := children (h ! self) @ [length h]\<rparr>] @
     [MCTSNode_init g (result g (state (h ! self)) a) (Some a) (Some self)]"

definition stats_only :: "('s, 'a) heap \<Rightarrow> ('s, 'a) heap \<Rightarrow> bool" where
  "stats_only h h' \<longleftrightarrow>
     length h' = length h \<and>
     (\<forall>i < length h. \<exists>n u. h' ! i = (h ! i)\<lparr>visit := n, utility := u\<rparr>)"

text \<open>
  The invariant of the loop of \<^verbatim>\<open>best_action\<close>, what \<^verbatim>\<open>tree_policy\<close> can return, and
  what holds between \<^verbatim>\<open>tree_policy\<close> and the backpropagation of the same iteration.
\<close>

definition engine_inv :: "('s, 'a, 'l) game \<Rightarrow> ('s, 'a) MCTSSearch \<Rightarrow> bool" where
  "engine_inv g s \<longleftrightarrow>
     root s = 0 \<and> wf_heap (nodes s) \<and> visits_inv (nodes s) \<and>
     visited_except (nodes s) 0 \<and> expansion_inv g (nodes s)"

definition tree_policy_post ::
  "('s, 'a, 'l) game \<Rightarrow> nat \<Rightarrow> ('s, 'a) MCTSSearch \<Rightarrow> error + ('s, 'a) MCTSSearch \<times> nat \<Rightarrow> bool" where
  "tree_policy_post g r s res \<longleftrightarrow>
     (case res of
        Inl e \<Rightarrow> (\<exists>self < length (nodes s). best_child g 0.5 (nodes s) self = Inl e)
      | Inr (s', v) \<Rightarrow>
          (s' = s \<and> v < length (nodes s) \<and> is_terminal_node g (nodes s ! v)) \<or>
          (\<exists>self < length (nodes s).
             untried_actions (nodes s ! self) \<noteq> [] \<and>
             s' = s\<lparr>nodes := expanded g (nodes s) self
                        (untried_actions (nodes s ! self) !
                          (r mod length (untried_actions (nodes s ! self)))),
                    node_no := node_no s + 1\<rparr> \<and>
             v = length (nodes s)))"

declare rollout.simps [simp del]

text \<open>
  A later store keeps the nodes of an earlier one, with their parent, state and
  incoming action, and keeps fully expanded nodes fully expanded.
\<close>

definition grows :: "('s, 'a) heap \<Rightarrow> ('s, 'a) heap \<Rightarrow> bool" where
  "grows h h' \<longleftrightarrow>
     length h \<le> length h' \<and>
     (\<forall>i < length h.
        parent (h' ! i) = parent (h ! i) \<and> state (h' ! i) = state (h ! i) \<and>
        action (h' ! i) = action (h ! i) \<and>
        (untried_actions (h ! i) = [] \<longrightarrow> untried_actions (h' ! i) = []))"

definition after_tree_policy ::
  "('s, 'a, 'l) game \<Rightarrow> ('s, 'a) MCTSSearch \<Rightarrow> ('s, 'a) MCTSSearch \<Rightarrow> nat \<Rightarrow> bool" where
  "after_tree_policy g s s1 v \<longleftrightarrow>
     root s1 = 0 \<and> wf_heap (nodes s1) \<and> visits_inv (nodes s1) \<and>
     visited_except (nodes s1) v \<and> expansion_inv g (nodes s1) \<and>
     v < length (nodes s1) \<and> grows (nodes s) (nodes s1) \<and>
     (\<forall>i < length (nodes s1).
        visit (nodes s1 ! i) = (if i < length (nodes s) then visit (nodes s ! i) else 0))"

text \<open>
  The body of the loop of \<^verbatim>\<open>best_action\<close> run once for each element of the random
  input, without the test of the clock; the nodes on which the backpropagation passes
  started are recorded in order. \<open>passes_through h vs i\<close> counts the passes, started
  at the nodes \<open>vs\<close>, that go through node \<open>i\<close>.
\<close>

fun iterate ::
  "('s, 'a, 'l) game \<Rightarrow> (nat \<times> nat list) list \<Rightarrow> ('s, 'a) MCTSSearch \<Rightarrow>
   (error + ('s, 'a) MCTSSearch \<times> nat list) option" where
  "iterate g [] s = Some (Inr (s, []))"
| "iterate g (rnd # rnds) s =
     (case iteration g rnd s of
        None \<Rightarrow> None
      | Some (Inl e) \<Rightarrow> Some (Inl e)
      | Some (Inr (s1, v)) \<Rightarrow>
          (case iterate g rnds s1 of
             None \<Rightarrow> None
           | Some (Inl e) \<Rightarrow> Some (Inl e)
           | Some (Inr (s2, vs)) \<Rightarrow> Some (Inr (s2, v # vs))))"

definition passes_through :: "('s, 'a) heap \<Rightarrow> nat list \<Rightarrow> nat \<Rightarrow> nat" where
  "passes_through h vs i = length (filter (\<lambda>v. i \<in> set (lineage h v)) vs)"

subsection \<open>A small game and some stores, for concrete runs\<close>

text \<open>
  A subtraction game: a state is the number of tokens left and the number of plies
  played; a move takes one or two tokens; the player who cannot move has lost. The
  liberties of the player to move are as many as the tokens left, the opponent has none.
\<close>

definition nim :: "(nat \<times> nat, nat, int) game" where
  "nim =
     \<lparr>player = (\<lambda>(n, p). int (p mod 2)),
      actions = (\<lambda>(n, p). if n = 0 then [] else if n = 1 then [1] else [1, 2]),
      result = (\<lambda>(n, p) a. (n - a, p + 1)),
      terminal_test = (\<lambda>(n, p). n = 0),
      state_utility = (\<lambda>(n, p) pl. if n \<noteq> 0 then Finite
                                     else if pl = int (p mod 2) then NegInf else PosInf),
      locs = (\<lambda>(n, p) pl. pl),
      liberties = (\<lambda>(n, p) l. if l = int (p mod 2) then replicate n 0 else []),
      ply_count = (\<lambda>(n, p). int p),
      action_truthy = (\<lambda>a. a \<noteq> 0)\<rparr>"


definition three_level :: "(nat \<times> nat, nat) heap" where
  "three_level =
     [\<lparr>state = (3, 2), parent = None, children = [1], action = None, visit = 1,
       utility = - 1, untried_actions = [2]\<rparr>,
      \<lparr>state = (2, 3), parent = Some 0, children = [2], action = Some 1, visit = 1,
       utility = 1, untried_actions = [2]\<rparr>,
      \<lparr>state = (1, 4), parent = Some 1, children = [], action = Some 1, visit = 0,
       utility = 0, untried_actions = [1]\<rparr>]"

text \<open>The search after one and after three iterations from the state with one token.\<close>

definition nim_after3 :: "(nat \<times> nat, nat) MCTSSearch" where
  "nim_after3 =
     \<lparr>nodes =
        [\<lparr>state = (1, 2), parent = None, children = [1], action = None, visit = 3,
          utility = - 3, untried_actions = []\<rparr>,
         \<lparr>state = (0, 3), parent = Some 0, children = [], action = Some 1, visit = 3,
          utility = 3, untried_actions = []\<rparr>],
      root = 0, player_id = 0, node_no = 2\<rparr>"

definition nim_after1 :: "(nat \<times> nat, nat) MCTSSearch" where
  "nim_after1 =
     \<lparr>nodes =
        [\<lparr>state = (1, 2), parent = None, children = [1], action = None, visit = 1,
          utility = - 1, untried_actions = []\<rparr>,
         \<lparr>state = (0, 3), parent = Some 0, children = [], action = Some 1, visit = 1,
          utility = 1, untried_actions = []\<rparr>],
      root = 0, player_id = 0, node_no = 2\<rparr>"

text \<open>
  The store inside the backpropagation pass of the second iteration, when the child has
  been updated and the pass moves on to the root.
\<close>

definition nim_inside_pass :: "(nat \<times> nat, nat) heap" where
  "nim_inside_pass =
     [\<lparr>state = (1, 2), parent = None, children = [1], action = None, visit = 1,
       utility = - 1, untried_actions = []\<rparr>,
      \<lparr>state = (0, 3), parent = Some 0, children = [], action = Some 1, visit = 2,
       utility = 2, untried_actions = []\<rparr>]"

section \<open>Properties\<close>

subsection \<open>The time allowance\<close>



subsection \<open>The selection score\<close>

lemma score_defined:
  "0 < visit t \<Longrightarrow> visit t \<le> visit self \<Longrightarrow> score c self t = Inr (selection_score c self t)"
  unfolding score_def selection_score_def Let_def
  by (auto simp: not_le not_less)

lemma score_domain_error:
  "0 < visit self \<Longrightarrow> visit self < visit t \<Longrightarrow> score c self t = Inl ValueError"
  unfolding score_def Let_def
  by (auto simp: not_le not_less)

text \<open>
  C3, as stated, fails: with a parent visited once and a child visited twice the ratio
  inside the logarithm is below one, the operand of \<^verbatim>\<open>math.sqrt\<close> is negative and no
  score is computed; the call raises ValueError.
\<close>

theorem score_parent_below_child_raises:
  "score 0.5
     \<lparr>state = (), parent = None, children = [1], action = None :: unit option, visit = 1,
      utility = 0, untried_actions = []\<rparr>
     \<lparr>state = (), parent = Some 0, children = [], action = Some (), visit = 2,
      utility = 1, untried_actions = []\<rparr> = Inl ValueError"
  unfolding score_def Let_def by simp

text \<open>
  C3, amended: for a node and a child \<open>t\<close> whose visit count is positive and at most
  the visit count of the node, the score computed is the utility of \<open>t\<close> over its
  visit count plus the exploration weight times the square root of twice the logarithm
  of the node's own visit count over the visit count of \<open>t\<close>; when the visit count of
  the node is positive and below that of \<open>t\<close>, the computation raises ValueError.
\<close>

theorem score_is_selection_score:
  assumes "0 < visit self" and "0 < visit t"
  shows "score c_param self t =
           (if visit t \<le> visit self
            then Inr (real_of_int (utility t) / real_of_int (visit t) +
                      c_param * sqrt (2 * ln (real_of_int (visit self) / real_of_int (visit t))))
            else Inl ValueError)"
  using assms score_defined [of t self c_param] score_domain_error [of self t c_param]
  by (simp add: selection_score_def)

theorem score_is_selection_score_witness:
  "score 0.5
     \<lparr>state = (), parent = None, children = [1], action = None :: unit option, visit = 3,
      utility = 0, untried_actions = []\<rparr>
     \<lparr>state = (), parent = Some 0, children = [], action = Some (), visit = 2,
      utility = 1, untried_actions = []\<rparr> = Inr (1 / 2 + 0.5 * sqrt (2 * ln (3 / 2)))"
  using score_is_selection_score
    [of "\<lparr>state = (), parent = None, children = [1], action = None :: unit option, visit = 3,
          utility = 0, untried_actions = []\<rparr>"
        "\<lparr>state = (), parent = Some 0, children = [], action = Some (), visit = 2,
          utility = 1, untried_actions = []\<rparr>" "0.5"]
  by simp

subsection \<open>best_child\<close>





lemma py_max_Max: "xs \<noteq> [] \<Longrightarrow> py_max xs = Inr (Max (set xs))"
  by (cases xs) (simp_all add: Max.set_eq_fold [symmetric])

lemma py_index_first:
  "v \<in> set xs \<Longrightarrow> \<exists>i < length xs. py_index xs v = Inr i \<and> xs ! i = v \<and> (\<forall>j < i. xs ! j \<noteq> v)"
proof (induction xs)
  case Nil
  then show ?case by simp
next
  case (Cons x xs)
  show ?case
  proof (cases "x = v")
    case True
    then show ?thesis by simp
  next
    case False
    then have "v \<in> set xs" using Cons.prems by simp
    from Cons.IH [OF this] obtain i where i: "i < length xs" "py_index xs v = Inr i" "xs ! i = v"
      "\<forall>j < i. xs ! j \<noteq> v" by blast
    have "\<forall>j < Suc i. (x # xs) ! j \<noteq> v"
      using False i(4) by (auto simp: nth_Cons split: nat.splits)
    then show ?thesis using False i by (intro exI [of _ "Suc i"]) simp
  qed
qed



lemma py_index_bound: "py_index xs v = Inr i \<Longrightarrow> i < length xs"
  by (induction xs arbitrary: i) (auto split: if_splits sum.splits)

lemma best_child_loop_subset:
  "best_child_loop c h self ts (m, acc) = Inr (m', acc') \<Longrightarrow> set acc' \<subseteq> set acc \<union> set ts"
proof (induction ts arbitrary: m acc)
  case Nil
  then show ?case by simp
next
  case (Cons t ts)
  from Cons.prems obtain sc where sc: "score c (h ! self) (h ! t) = Inr sc"
    by (auto split: sum.splits)
  consider (gt) "m < sc" | (eq) "sc = m" | (lt) "sc < m" by linarith
  then show ?case
  proof cases
    case gt
    with Cons.prems sc have "best_child_loop c h self ts (sc, [t]) = Inr (m', acc')" by simp
    from Cons.IH [OF this] show ?thesis by auto
  next
    case eq
    with Cons.prems sc have "best_child_loop c h self ts (m, acc @ [t]) = Inr (m', acc')" by simp
    from Cons.IH [OF this] show ?thesis by auto
  next
    case lt
    with Cons.prems sc have "best_child_loop c h self ts (m, acc) = Inr (m', acc')" by simp
    from Cons.IH [OF this] show ?thesis by auto
  qed
qed

lemma best_child_loop_error:
  "best_child_loop c h self ts (m, acc) = Inl e \<Longrightarrow>
   \<exists>t \<in> set ts. score c (h ! self) (h ! t) = Inl e"
proof (induction ts arbitrary: m acc)
  case Nil
  then show ?case by simp
next
  case (Cons t ts)
  show ?case
  proof (cases "score c (h ! self) (h ! t)")
    case (Inl e')
    with Cons.prems show ?thesis by simp
  next
    case (Inr sc)
    consider (gt) "m < sc" | (eq) "sc = m" | (lt) "sc < m" by linarith
    then show ?thesis
    proof cases
      case gt
      with Cons.prems Inr have "best_child_loop c h self ts (sc, [t]) = Inl e" by simp
      from Cons.IH [OF this] show ?thesis by auto
    next
      case eq
      with Cons.prems Inr have "best_child_loop c h self ts (m, acc @ [t]) = Inl e" by simp
      from Cons.IH [OF this] show ?thesis by auto
    next
      case lt
      with Cons.prems Inr have "best_child_loop c h self ts (m, acc) = Inl e" by simp
      from Cons.IH [OF this] show ?thesis by auto
    qed
  qed
qed

lemma best_child_mem:
  assumes "best_child g c h self = Inr b"
  shows "b \<in> set (children (h ! self))"
proof -
  from assms obtain m acc where
    loop: "best_child_loop c h self (children (h ! self)) (- 999, []) = Inr (m, acc)"
    unfolding best_child_def by (auto split: sum.splits)
  from assms loop obtain mx i where
    i: "py_index (map (\<lambda>x. heuristic_score g (state (h ! x))) acc) mx = Inr i" and b: "b = acc ! i"
    unfolding best_child_def Let_def by (auto split: sum.splits)
  from py_index_bound [OF i] have "i < length acc" by simp
  then have "b \<in> set acc" using b by simp
  with best_child_loop_subset [OF loop] show ?thesis by auto
qed

lemma best_child_error:
  assumes "best_child g c h self = Inl e"
  shows "e = ValueError \<or> (\<exists>t \<in> set (children (h ! self)). score c (h ! self) (h ! t) = Inl e)"
proof (cases "best_child_loop c h self (children (h ! self)) (- 999, [])")
  case (Inl e')
  then have "e' = e" using assms unfolding best_child_def by simp
  with best_child_loop_error Inl show ?thesis by blast
next
  case (Inr p)
  obtain m acc where p: "p = (m, acc)" by (cases p)
  let ?hs = "map (\<lambda>x. heuristic_score g (state (h ! x))) acc"
  show ?thesis
  proof (cases acc)
    case Nil
    then show ?thesis using assms Inr p unfolding best_child_def by simp
  next
    case (Cons a as)
    then have ne: "?hs \<noteq> []" by simp
    have mx: "py_max ?hs = Inr (Max (set ?hs))" by (rule py_max_Max [OF ne])
    have "Max (set ?hs) \<in> set ?hs" using ne by (intro Max_in) auto
    from py_index_first [OF this] obtain i where "py_index ?hs (Max (set ?hs)) = Inr i" by blast
    then show ?thesis using assms Inr p mx unfolding best_child_def Let_def by simp
  qed
qed







subsection \<open>backpropagate\<close>

lemma lineage_None: "parent (h ! v) = None \<Longrightarrow> lineage h v = [v]"
  by (subst lineage.simps) simp

lemma lineage_Some: "parent (h ! v) = Some p \<Longrightarrow> p < v \<Longrightarrow> lineage h v = v # lineage h p"
  by (subst lineage.simps) simp

lemma lineage_le: "x \<in> set (lineage h v) \<Longrightarrow> x \<le> v"
proof (induction h v rule: lineage.induct)
  case (1 h v)
  show ?case
  proof (cases "parent (h ! v)")
    case None
    with "1.prems" show ?thesis by (simp add: lineage_None)
  next
    case (Some p)
    show ?thesis
    proof (cases "p < v")
      case True
      with Some "1.prems" have "x = v \<or> x \<in> set (lineage h p)" by (simp add: lineage_Some)
      then show ?thesis using "1.IH" [OF Some True] True by auto
    next
      case False
      with Some "1.prems" show ?thesis by (subst (asm) lineage.simps) simp
    qed
  qed
qed

lemma lineage_hd: "v \<in> set (lineage h v)"
  by (subst lineage.simps) (simp split: option.splits)

lemma lineage_parents_cong:
  "(\<forall>i \<le> v. parent (h' ! i) = parent (h ! i)) \<Longrightarrow> lineage h' v = lineage h v"
proof (induction h v rule: lineage.induct)
  case (1 h v)
  have pv: "parent (h' ! v) = parent (h ! v)" using "1.prems" by simp
  show ?case
  proof (cases "parent (h ! v)")
    case None
    then show ?thesis using pv by (simp add: lineage_None)
  next
    case (Some p)
    show ?thesis
    proof (cases "p < v")
      case True
      have "lineage h' p = lineage h p" using "1.IH" [OF Some True] "1.prems" True by simp
      then show ?thesis using Some True pv by (simp add: lineage_Some)
    next
      case False
      then show ?thesis using Some pv
        by (subst lineage.simps, subst (2) lineage.simps) simp
    qed
  qed
qed

lemma signed_share_notin: "i \<notin> set vs \<Longrightarrow> signed_share r vs i = 0"
  by (induction vs arbitrary: r) auto

lemma signed_share_nth:
  "distinct vs \<Longrightarrow> j < length vs \<Longrightarrow> signed_share r vs (vs ! j) = (- 1) ^ j * r"
proof (induction vs arbitrary: r j)
  case Nil
  then show ?case by simp
next
  case (Cons v vs)
  show ?case
  proof (cases j)
    case 0
    then show ?thesis by simp
  next
    case (Suc k)
    then have "vs ! k \<noteq> v" using Cons.prems by auto
    then show ?thesis using Suc Cons.IH [of k "- r"] Cons.prems by simp
  qed
qed

lemma backpropagate_result:
  "parents_below h \<Longrightarrow> v < length h \<Longrightarrow>
   \<exists>h'. backpropagate h v r = Some h' \<and> length h' = length h \<and>
     (\<forall>i < length h. h' ! i = (h ! i)\<lparr>visit := visit (h ! i) + touched h v i,
                                     utility := utility (h ! i) + signed_share r (lineage h v) i\<rparr>)"
proof (induction v arbitrary: h r rule: less_induct)
  case (less v)
  let ?n = "h ! v"
  let ?h1 = "h[v := ?n\<lparr>visit := visit ?n + 1, utility := utility ?n + r\<rparr>]"
  have par1: "\<And>i. parent (?h1 ! i) = parent (h ! i)"
    using less.prems(2) by (simp add: nth_list_update)
  have len1: "length ?h1 = length h" by simp
  show ?case
  proof (cases "parent (h ! v)")
    case None
    have bp: "backpropagate h v r = Some ?h1"
      using None less.prems(2) by (subst backpropagate.simps) (simp add: Let_def)
    have "\<forall>i < length h. ?h1 ! i = (h ! i)\<lparr>visit := visit (h ! i) + touched h v i,
              utility := utility (h ! i) + signed_share r (lineage h v) i\<rparr>"
      using None by (auto simp: nth_list_update touched_def lineage_None)
    with bp len1 show ?thesis by blast
  next
    case (Some p)
    have pv: "p < v" using less.prems Some unfolding parents_below_def by blast
    have bp: "backpropagate h v r = backpropagate ?h1 p (- r)"
      using Some less.prems(2) by (subst backpropagate.simps) (simp add: Let_def)
    have pb1: "parents_below ?h1"
      using less.prems(1) par1 unfolding parents_below_def by simp
    have pl: "p < length ?h1" using pv less.prems(2) by simp
    from less.IH [OF pv pb1 pl, of "- r"] obtain h' where
      h': "backpropagate ?h1 p (- r) = Some h'" "length h' = length ?h1"
          "\<forall>i < length ?h1. h' ! i = (?h1 ! i)\<lparr>visit := visit (?h1 ! i) + touched ?h1 p i,
              utility := utility (?h1 ! i) + signed_share (- r) (lineage ?h1 p) i\<rparr>"
      by blast
    have lin1: "lineage ?h1 p = lineage h p"
      by (rule lineage_parents_cong) (simp add: par1)
    have linv: "lineage h v = v # lineage h p" using Some pv by (rule lineage_Some)
    have vnot: "v \<notin> set (lineage h p)" using lineage_le [of v h p] pv by auto
    have "\<forall>i < length h. h' ! i = (h ! i)\<lparr>visit := visit (h ! i) + touched h v i,
              utility := utility (h ! i) + signed_share r (lineage h v) i\<rparr>"
    proof (intro allI impI)
      fix i assume i: "i < length h"
      show "h' ! i = (h ! i)\<lparr>visit := visit (h ! i) + touched h v i,
              utility := utility (h ! i) + signed_share r (lineage h v) i\<rparr>"
      proof (cases "i = v")
        case True
        then show ?thesis using h'(3) i vnot less.prems(2)
          by (simp add: touched_def lin1 linv signed_share_notin)
      next
        case False
        then show ?thesis using h'(3) i
          by (simp add: touched_def lin1 linv)
      qed
    qed
    with bp h'(1,2) len1 show ?thesis by simp
  qed
qed

lemma lineage_nth0: "lineage h v ! 0 = v"
  by (subst lineage.simps) (simp split: option.splits)

lemma lineage_nonempty: "lineage h v \<noteq> []"
  by (subst lineage.simps) (simp split: option.splits)

lemma lineage_distinct: "distinct (lineage h v)"
proof (induction h v rule: lineage.induct)
  case (1 h v)
  show ?case
  proof (cases "parent (h ! v)")
    case None
    then show ?thesis by (simp add: lineage_None)
  next
    case (Some p)
    show ?thesis
    proof (cases "p < v")
      case True
      have "v \<notin> set (lineage h p)" using lineage_le [of v h p] True by auto
      then show ?thesis using "1.IH" [OF Some True] Some True by (simp add: lineage_Some)
    next
      case False
      then show ?thesis using Some by (subst lineage.simps) simp
    qed
  qed
qed

lemma lineage_chain:
  "parents_below h \<Longrightarrow> v < length h \<Longrightarrow> Suc j < length (lineage h v) \<Longrightarrow>
   parent (h ! (lineage h v ! j)) = Some (lineage h v ! Suc j)"
proof (induction h v arbitrary: j rule: lineage.induct)
  case (1 h v)
  show ?case
  proof (cases "parent (h ! v)")
    case None
    with "1.prems" show ?thesis by (simp add: lineage_None)
  next
    case (Some p)
    have pv: "p < v" using "1.prems" Some unfolding parents_below_def by blast
    have lin: "lineage h v = v # lineage h p" using Some pv by (rule lineage_Some)
    show ?thesis
    proof (cases j)
      case 0
      then show ?thesis using lin Some by (simp add: lineage_nth0)
    next
      case (Suc k)
      have "Suc k < length (lineage h p)" using "1.prems"(3) lin Suc by simp
      from "1.IH" [OF Some pv "1.prems"(1) _ this] pv "1.prems"(2)
      show ?thesis using lin Suc by simp
    qed
  qed
qed

lemma lineage_last:
  "parents_below h \<Longrightarrow> v < length h \<Longrightarrow> parent (h ! last (lineage h v)) = None"
proof (induction h v rule: lineage.induct)
  case (1 h v)
  show ?case
  proof (cases "parent (h ! v)")
    case None
    then show ?thesis by (simp add: lineage_None)
  next
    case (Some p)
    have pv: "p < v" using "1.prems" Some unfolding parents_below_def by blast
    have lin: "lineage h v = v # lineage h p" using Some pv by (rule lineage_Some)
    from "1.IH" [OF Some pv "1.prems"(1)] pv "1.prems"(2)
    show ?thesis using lin lineage_nonempty [of h p] by simp
  qed
qed

text \<open>
  C6: in a store whose parent links point to earlier nodes, \<^verbatim>\<open>backpropagate\<close> called on
  node \<open>v\<close> returns. The nodes it goes through are \<open>v\<close>, its parent, and so on up to a
  node without parent. The node \<open>j\<close> steps above \<open>v\<close> has its visit count raised by
  exactly one and its utility by the result negated \<open>j\<close> times: plus the result at the
  depth of \<open>v\<close>, minus the result one level up, alternating up to the root. The other
  fields and the other nodes are unchanged.
\<close>

theorem backpropagate_alternating_signs:
  assumes "parents_below h" and "v < length h"
  shows "\<exists>h'. backpropagate h v res = Some h' \<and> length h' = length h \<and>
           lineage h v ! 0 = v \<and>
           parent (h ! last (lineage h v)) = None \<and>
           (\<forall>j < length (lineage h v).
              h' ! (lineage h v ! j) =
                (h ! (lineage h v ! j))
                  \<lparr>visit := visit (h ! (lineage h v ! j)) + 1,
                   utility := utility (h ! (lineage h v ! j)) + (- 1) ^ j * res\<rparr> \<and>
              (Suc j < length (lineage h v) \<longrightarrow>
                 parent (h ! (lineage h v ! j)) = Some (lineage h v ! Suc j))) \<and>
           (\<forall>i < length h. i \<notin> set (lineage h v) \<longrightarrow> h' ! i = h ! i)"
proof -
  from backpropagate_result [OF assms, of res] obtain h' where
    h': "backpropagate h v res = Some h'" "length h' = length h"
        "\<forall>i < length h. h' ! i = (h ! i)\<lparr>visit := visit (h ! i) + touched h v i,
             utility := utility (h ! i) + signed_share res (lineage h v) i\<rparr>"
    by blast
  have on: "\<forall>j < length (lineage h v).
              h' ! (lineage h v ! j) =
                (h ! (lineage h v ! j))
                  \<lparr>visit := visit (h ! (lineage h v ! j)) + 1,
                   utility := utility (h ! (lineage h v ! j)) + (- 1) ^ j * res\<rparr> \<and>
              (Suc j < length (lineage h v) \<longrightarrow>
                 parent (h ! (lineage h v ! j)) = Some (lineage h v ! Suc j))"
  proof (intro allI impI conjI)
    fix j assume j: "j < length (lineage h v)"
    then have mem: "lineage h v ! j \<in> set (lineage h v)" by simp
    then have "lineage h v ! j \<le> v" by (rule lineage_le)
    then have lt: "lineage h v ! j < length h" using assms(2) by simp
    show "h' ! (lineage h v ! j) =
            (h ! (lineage h v ! j))
              \<lparr>visit := visit (h ! (lineage h v ! j)) + 1,
               utility := utility (h ! (lineage h v ! j)) + (- 1) ^ j * res\<rparr>"
      using h'(3) lt mem signed_share_nth [OF lineage_distinct j, of res]
      by (simp add: touched_def)
  next
    fix j assume "j < length (lineage h v)" "Suc j < length (lineage h v)"
    then show "parent (h ! (lineage h v ! j)) = Some (lineage h v ! Suc j)"
      using lineage_chain [OF assms] by simp
  qed
  have off: "\<forall>i < length h. i \<notin> set (lineage h v) \<longrightarrow> h' ! i = h ! i"
    using h'(3) by (simp add: touched_def signed_share_notin)
  show ?thesis
    using h'(1,2) on off lineage_nth0 [of h v] lineage_last [OF assms] by blast
qed

lemma parents_below_three_level: "parents_below three_level"
  by (auto simp: parents_below_def three_level_def nth_Cons split: nat.splits)

lemma lineage_three_level: "lineage three_level 2 = [2, 1, 0]"
  by (simp add: lineage.simps three_level_def)

theorem backpropagate_alternating_signs_witness:
  "\<exists>h'. backpropagate three_level 2 1 = Some h' \<and>
     utility (h' ! 2) = utility (three_level ! 2) + 1 \<and>
     utility (h' ! 1) = utility (three_level ! 1) - 1 \<and>
     utility (h' ! 0) = utility (three_level ! 0) + 1 \<and>
     visit (h' ! 2) = 1 \<and> visit (h' ! 1) = 2 \<and> visit (h' ! 0) = 2"
proof -
  have len: "2 < length three_level" by (simp add: three_level_def)
  from backpropagate_alternating_signs [OF parents_below_three_level len, of 1]
  obtain h' where bp: "backpropagate three_level 2 1 = Some h'"
    and on: "\<forall>j < length (lineage three_level 2).
               h' ! (lineage three_level 2 ! j) =
                 (three_level ! (lineage three_level 2 ! j))
                   \<lparr>visit := visit (three_level ! (lineage three_level 2 ! j)) + 1,
                    utility := utility (three_level ! (lineage three_level 2 ! j)) + (- 1) ^ j * 1\<rparr> \<and>
               (Suc j < length (lineage three_level 2) \<longrightarrow>
                  parent (three_level ! (lineage three_level 2 ! j)) =
                  Some (lineage three_level 2 ! Suc j))"
    by blast
  from on have n0: "h' ! 2 = (three_level ! 2)\<lparr>visit := visit (three_level ! 2) + 1,
                      utility := utility (three_level ! 2) + 1\<rparr>"
    unfolding lineage_three_level by (auto dest: spec [of _ 0])
  from on have n1: "h' ! 1 = (three_level ! 1)\<lparr>visit := visit (three_level ! 1) + 1,
                      utility := utility (three_level ! 1) - 1\<rparr>"
    unfolding lineage_three_level by (auto dest: spec [of _ 1])
  from on have n2: "h' ! 0 = (three_level ! 0)\<lparr>visit := visit (three_level ! 0) + 1,
                      utility := utility (three_level ! 0) + 1\<rparr>"
    unfolding lineage_three_level by (auto dest: spec [of _ 2])
  show ?thesis using bp n0 n1 n2 by (simp add: three_level_def)
qed

subsection \<open>Invariants of the search\<close>

lemma wf_heap_parents_below: "wf_heap h \<Longrightarrow> parents_below h"
  unfolding wf_heap_def parents_below_def
  by (metis not_gr_zero option.distinct(1) option.inject)

lemma wf_heap_child_gt:
  "wf_heap h \<Longrightarrow> i < length h \<Longrightarrow> c \<in> set (children (h ! i)) \<Longrightarrow> i < c \<and> c < length h"
  using wf_heap_parents_below [of h] unfolding wf_heap_def parents_below_def by blast

lemma expand_result:
  assumes "self < length h" and "untried_actions (h ! self) \<noteq> []"
  shows "expand g r h self =
           Inr (expanded g h self
                  (untried_actions (h ! self) ! (r mod length (untried_actions (h ! self)))),
                length h)"
  using assms
  by (simp add: expand_def random_choice_def expanded_def Let_def nth_append list_update_append)

lemma expand_empty: "untried_actions (h ! self) = [] \<Longrightarrow> expand g r h self = Inl IndexError"
  by (simp add: expand_def random_choice_def)

lemma length_expanded [simp]: "length (expanded g h self a) = Suc (length h)"
  by (simp add: expanded_def)

lemma expanded_nth_old:
  "i < length h \<Longrightarrow> expanded g h self a ! i =
     (if i = self
      then (h ! self)\<lparr>untried_actions := remove1 a (untried_actions (h ! self)),
                      children := children (h ! self) @ [length h]\<rparr>
      else h ! i)"
  by (simp add: expanded_def nth_append)

lemma expanded_nth_new:
  "expanded g h self a ! length h =
     MCTSNode_init g (result g (state (h ! self)) a) (Some a) (Some self)"
  by (simp add: expanded_def nth_append)

lemma expanded_fields:
  assumes "i < length h"
  shows "parent (expanded g h self a ! i) = parent (h ! i)"
    and "state (expanded g h self a ! i) = state (h ! i)"
    and "action (expanded g h self a ! i) = action (h ! i)"
    and "visit (expanded g h self a ! i) = visit (h ! i)"
    and "utility (expanded g h self a ! i) = utility (h ! i)"
    and "children (expanded g h self a ! i) =
           (if i = self then children (h ! i) @ [length h] else children (h ! i))"
    and "untried_actions (expanded g h self a ! i) =
           (if i = self then remove1 a (untried_actions (h ! i)) else untried_actions (h ! i))"
  using assms by (simp_all add: expanded_nth_old)

lemma expanded_new_fields:
  "parent (expanded g h self a ! length h) = Some self"
  "state (expanded g h self a ! length h) = result g (state (h ! self)) a"
  "action (expanded g h self a ! length h) = Some a"
  "visit (expanded g h self a ! length h) = 0"
  "utility (expanded g h self a ! length h) = 0"
  "children (expanded g h self a ! length h) = []"
  "untried_actions (expanded g h self a ! length h) = actions g (result g (state (h ! self)) a)"
  by (simp_all add: expanded_nth_new MCTSNode_init_def)

lemma wf_heap_expanded:
  assumes wf: "wf_heap h" and self: "self < length h"
  shows "wf_heap (expanded g h self a)"
proof -
  let ?h' = "expanded g h self a"
  have ne: "h \<noteq> []" and p0: "parent (h ! 0) = None"
    and up: "\<forall>i < length h. 0 < i \<longrightarrow> (\<exists>p < i. parent (h ! i) = Some p \<and> i \<in> set (children (h ! p)))"
    and down: "\<forall>i < length h. \<forall>c \<in> set (children (h ! i)). c < length h \<and> parent (h ! c) = Some i"
    and dist: "\<forall>i < length h. distinct (children (h ! i))"
    using wf unfolding wf_heap_def by blast+
  have l0: "0 < length h" using ne by simp
  have a1: "?h' \<noteq> []" by (simp add: expanded_def)
  have a2: "parent (?h' ! 0) = None" using p0 l0 by (simp add: expanded_fields)
  have a3: "\<forall>i < length ?h'. 0 < i \<longrightarrow> (\<exists>p < i. parent (?h' ! i) = Some p \<and> i \<in> set (children (?h' ! p)))"
  proof (intro allI impI)
    fix i assume i: "i < length ?h'" "0 < i"
    show "\<exists>p < i. parent (?h' ! i) = Some p \<and> i \<in> set (children (?h' ! p))"
    proof (cases "i < length h")
      case True
      from up True i(2) obtain p where p: "p < i" "parent (h ! i) = Some p" "i \<in> set (children (h ! p))"
        by blast
      then have "p < length h" using True by simp
      then have "i \<in> set (children (?h' ! p))" using p(3) by (auto simp: expanded_fields)
      then show ?thesis using p True by (auto simp: expanded_fields)
    next
      case False
      then have "i = length h" using i(1) by simp
      then show ?thesis using self by (auto simp: expanded_fields expanded_new_fields intro!: exI [of _ self])
    qed
  qed
  have a4: "\<forall>i < length ?h'. \<forall>c \<in> set (children (?h' ! i)). c < length ?h' \<and> parent (?h' ! c) = Some i"
  proof (intro allI impI ballI)
    fix i c assume i: "i < length ?h'" and c: "c \<in> set (children (?h' ! i))"
    show "c < length ?h' \<and> parent (?h' ! c) = Some i"
    proof (cases "i < length h")
      case True
      show ?thesis
      proof (cases "c = length h")
        case True
        then have "i = self" using c \<open>i < length h\<close> down
          by (auto simp: expanded_fields split: if_splits)
        then show ?thesis using True by (simp add: expanded_new_fields)
      next
        case False
        then have "c \<in> set (children (h ! i))" using c True
          by (auto simp: expanded_fields split: if_splits)
        then have "c < length h \<and> parent (h ! c) = Some i" using down True by blast
        then show ?thesis by (simp add: expanded_fields)
      qed
    next
      case False
      then have "i = length h" using i by simp
      then show ?thesis using c by (simp add: expanded_new_fields)
    qed
  qed
  have a5: "\<forall>i < length ?h'. distinct (children (?h' ! i))"
  proof (intro allI impI)
    fix i assume i: "i < length ?h'"
    show "distinct (children (?h' ! i))"
    proof (cases "i < length h")
      case True
      have "length h \<notin> set (children (h ! i))" using down True by auto
      then show ?thesis using dist True by (auto simp: expanded_fields)
    next
      case False
      then have "i = length h" using i by simp
      then show ?thesis by (simp add: expanded_new_fields)
    qed
  qed
  show ?thesis unfolding wf_heap_def using a1 a2 a3 a4 a5 by blast
qed

lemma visits_inv_expanded:
  assumes wf: "wf_heap h" and self: "self < length h" and inv: "visits_inv h"
  shows "visits_inv (expanded g h self a)"
proof -
  let ?h' = "expanded g h self a"
  have down: "\<forall>i < length h. \<forall>c \<in> set (children (h ! i)). c < length h"
    using wf unfolding wf_heap_def by blast
  have "\<forall>i < length ?h'. 0 \<le> visit (?h' ! i) \<and> child_visits ?h' i \<le> visit (?h' ! i)"
  proof (intro allI impI)
    fix i assume i: "i < length ?h'"
    show "0 \<le> visit (?h' ! i) \<and> child_visits ?h' i \<le> visit (?h' ! i)"
    proof (cases "i < length h")
      case True
      have same: "map (\<lambda>c. visit (?h' ! c)) (children (h ! i)) = map (\<lambda>c. visit (h ! c)) (children (h ! i))"
        using down True by (auto simp: expanded_fields)
      have "child_visits ?h' i =
              sum_list (map (\<lambda>c. visit (?h' ! c)) (children (h ! i)))"
        using True by (simp add: child_visits_def expanded_fields expanded_new_fields)
      also have "\<dots> = child_visits h i"
        unfolding child_visits_def by (rule arg_cong [OF same])
      finally have "child_visits ?h' i = child_visits h i" .
      then show ?thesis using inv True unfolding visits_inv_def by (simp add: expanded_fields)
    next
      case False
      then have "i = length h" using i by simp
      then show ?thesis by (simp add: child_visits_def expanded_new_fields)
    qed
  qed
  then show ?thesis unfolding visits_inv_def .
qed

lemma visited_except_expanded:
  "visited_except h 0 \<Longrightarrow> visited_except (expanded g h self a) (length h)"
  unfolding visited_except_def
  by (auto simp: expanded_fields less_Suc_eq)

lemma expansion_inv_expanded:
  assumes wf: "wf_heap h" and self: "self < length h" and inv: "expansion_inv g h"
    and a: "a \<in> set (untried_actions (h ! self))"
  shows "expansion_inv g (expanded g h self a)"
proof -
  let ?h' = "expanded g h self a"
  have down: "\<forall>i < length h. \<forall>c \<in> set (children (h ! i)). c < length h"
    using wf unfolding wf_heap_def by blast
  have old: "\<And>i. i < length h \<Longrightarrow>
      mset (untried_actions (h ! i)) + mset (child_actions h i) = mset (actions g (state (h ! i)))"
    and oldc: "\<And>i c. i < length h \<Longrightarrow> c \<in> set (children (h ! i)) \<Longrightarrow>
      action (h ! c) \<noteq> None \<and> state (h ! c) = result g (state (h ! i)) (the (action (h ! c)))"
    using inv unfolding expansion_inv_def by blast+
  have "\<forall>i < length ?h'.
        mset (untried_actions (?h' ! i)) + mset (child_actions ?h' i) = mset (actions g (state (?h' ! i))) \<and>
        (\<forall>c \<in> set (children (?h' ! i)).
           action (?h' ! c) \<noteq> None \<and> state (?h' ! c) = result g (state (?h' ! i)) (the (action (?h' ! c))))"
  proof (intro allI impI)
    fix i assume i: "i < length ?h'"
    show "mset (untried_actions (?h' ! i)) + mset (child_actions ?h' i) = mset (actions g (state (?h' ! i))) \<and>
        (\<forall>c \<in> set (children (?h' ! i)).
           action (?h' ! c) \<noteq> None \<and> state (?h' ! c) = result g (state (?h' ! i)) (the (action (?h' ! c))))"
    proof (cases "i < length h")
      case True
      have same: "map (\<lambda>c. the (action (?h' ! c))) (children (h ! i)) = child_actions h i"
        using down True by (auto simp: expanded_fields child_actions_def)
      have "child_actions ?h' i =
              map (\<lambda>c. the (action (?h' ! c))) (children (h ! i)) @ (if i = self then [a] else [])"
        using True by (simp add: child_actions_def expanded_fields expanded_new_fields)
      then have ca: "child_actions ?h' i = child_actions h i @ (if i = self then [a] else [])"
        unfolding same .
      have m: "mset (untried_actions (?h' ! i)) + mset (child_actions ?h' i) = mset (actions g (state (?h' ! i)))"
        using old [OF True] a True ca by (auto simp: expanded_fields)
      have c: "\<forall>c \<in> set (children (?h' ! i)).
           action (?h' ! c) \<noteq> None \<and> state (?h' ! c) = result g (state (?h' ! i)) (the (action (?h' ! c)))"
      proof
        fix c assume c: "c \<in> set (children (?h' ! i))"
        show "action (?h' ! c) \<noteq> None \<and> state (?h' ! c) = result g (state (?h' ! i)) (the (action (?h' ! c)))"
        proof (cases "c = length h")
          case True
          then have "i = self" using c \<open>i < length h\<close> down
            by (auto simp: expanded_fields split: if_splits)
          then show ?thesis using True \<open>i < length h\<close> by (simp add: expanded_new_fields expanded_fields)
        next
          case False
          then have cin: "c \<in> set (children (h ! i))" using c True
            by (auto simp: expanded_fields split: if_splits)
          then have "c < length h" using down True by blast
          then show ?thesis using oldc [OF True cin] True by (simp add: expanded_fields)
        qed
      qed
      show ?thesis using m c by blast
    next
      case False
      then have "i = length h" using i by simp
      then show ?thesis by (simp add: child_actions_def expanded_new_fields)
    qed
  qed
  then show ?thesis unfolding expansion_inv_def .
qed

lemma stats_only_fields:
  assumes "stats_only h h'" and "i < length h"
  shows "parent (h' ! i) = parent (h ! i)" "children (h' ! i) = children (h ! i)"
    "state (h' ! i) = state (h ! i)" "action (h' ! i) = action (h ! i)"
    "untried_actions (h' ! i) = untried_actions (h ! i)"
proof -
  from assms obtain n u where "h' ! i = (h ! i)\<lparr>visit := n, utility := u\<rparr>"
    unfolding stats_only_def by blast
  then show "parent (h' ! i) = parent (h ! i)" "children (h' ! i) = children (h ! i)"
    "state (h' ! i) = state (h ! i)" "action (h' ! i) = action (h ! i)"
    "untried_actions (h' ! i) = untried_actions (h ! i)" by simp_all
qed

lemma wf_heap_stats_only:
  assumes wf: "wf_heap h" and so: "stats_only h h'"
  shows "wf_heap h'"
proof -
  have len: "length h' = length h" using so unfolding stats_only_def by simp
  have ne: "h \<noteq> []" and p0: "parent (h ! 0) = None"
    and up: "\<forall>i < length h. 0 < i \<longrightarrow> (\<exists>p < i. parent (h ! i) = Some p \<and> i \<in> set (children (h ! p)))"
    and down: "\<forall>i < length h. \<forall>c \<in> set (children (h ! i)). c < length h \<and> parent (h ! c) = Some i"
    and dist: "\<forall>i < length h. distinct (children (h ! i))"
    using wf unfolding wf_heap_def by blast+
  have l0: "0 < length h" using ne by simp
  note f = stats_only_fields [OF so]
  have a1: "h' \<noteq> []" using len ne by auto
  have a2: "parent (h' ! 0) = None" using p0 f(1) [OF l0] by simp
  have a3: "\<forall>i < length h'. 0 < i \<longrightarrow> (\<exists>p < i. parent (h' ! i) = Some p \<and> i \<in> set (children (h' ! p)))"
  proof (intro allI impI)
    fix i assume i: "i < length h'" "0 < i"
    then have il: "i < length h" using len by simp
    from up il i(2) obtain p where p: "p < i" "parent (h ! i) = Some p" "i \<in> set (children (h ! p))"
      by blast
    have pl: "p < length h" using p(1) il by simp
    show "\<exists>p < i. parent (h' ! i) = Some p \<and> i \<in> set (children (h' ! p))"
      using p f(1) [OF il] f(2) [OF pl] by auto
  qed
  have a4: "\<forall>i < length h'. \<forall>c \<in> set (children (h' ! i)). c < length h' \<and> parent (h' ! c) = Some i"
  proof (intro allI impI ballI)
    fix i c assume i: "i < length h'" and c: "c \<in> set (children (h' ! i))"
    have il: "i < length h" using i len by simp
    have cin: "c \<in> set (children (h ! i))" using c f(2) [OF il] by simp
    then have cl: "c < length h" and pc: "parent (h ! c) = Some i" using down il by blast+
    show "c < length h' \<and> parent (h' ! c) = Some i" using cl pc len f(1) [OF cl] by simp
  qed
  have a5: "\<forall>i < length h'. distinct (children (h' ! i))"
    using dist len f(2) by simp
  show ?thesis unfolding wf_heap_def using a1 a2 a3 a4 a5 by blast
qed

lemma expansion_inv_stats_only:
  assumes wf: "wf_heap h" and inv: "expansion_inv g h" and so: "stats_only h h'"
  shows "expansion_inv g h'"
proof -
  have len: "length h' = length h" using so unfolding stats_only_def by simp
  have down: "\<forall>i < length h. \<forall>c \<in> set (children (h ! i)). c < length h"
    using wf unfolding wf_heap_def by blast
  note f = stats_only_fields [OF so]
  have "\<forall>i < length h'.
        mset (untried_actions (h' ! i)) + mset (child_actions h' i) = mset (actions g (state (h' ! i))) \<and>
        (\<forall>c \<in> set (children (h' ! i)).
           action (h' ! c) \<noteq> None \<and> state (h' ! c) = result g (state (h' ! i)) (the (action (h' ! c))))"
  proof (intro allI impI)
    fix i assume "i < length h'"
    then have il: "i < length h" using len by simp
    have ca: "child_actions h' i = child_actions h i"
      using down il f(4) by (auto simp: child_actions_def f(2) [OF il])
    have m: "mset (untried_actions (h' ! i)) + mset (child_actions h' i) = mset (actions g (state (h' ! i)))"
      using inv il ca f(3) [OF il] f(5) [OF il] unfolding expansion_inv_def by simp
    have c: "\<forall>c \<in> set (children (h' ! i)).
           action (h' ! c) \<noteq> None \<and> state (h' ! c) = result g (state (h' ! i)) (the (action (h' ! c)))"
    proof
      fix c assume "c \<in> set (children (h' ! i))"
      then have cin: "c \<in> set (children (h ! i))" using f(2) [OF il] by simp
      then have cl: "c < length h" using down il by blast
      show "action (h' ! c) \<noteq> None \<and> state (h' ! c) = result g (state (h' ! i)) (the (action (h' ! c)))"
        using inv il cin f(3) [OF il] f(3) [OF cl] f(4) [OF cl] unfolding expansion_inv_def by simp
    qed
    show "mset (untried_actions (h' ! i)) + mset (child_actions h' i) = mset (actions g (state (h' ! i))) \<and>
        (\<forall>c \<in> set (children (h' ! i)).
           action (h' ! c) \<noteq> None \<and> state (h' ! c) = result g (state (h' ! i)) (the (action (h' ! c))))"
      using m c by blast
  qed
  then show ?thesis unfolding expansion_inv_def .
qed

lemma sum_list_map_eq:
  "(\<And>x. x \<in> set xs \<Longrightarrow> f x = g x) \<Longrightarrow>
   sum_list (map f xs) = (sum_list (map g xs) :: int)"
  by (induction xs) auto

lemma sum_list_indicator:
  "distinct cs \<Longrightarrow>
   sum_list (map (\<lambda>c. if c = v then 1 else 0) cs) = (if v \<in> set cs then 1 else (0::int))"
  by (induction cs) auto

lemma touched_None: "parent (h ! v) = None \<Longrightarrow> touched h v c = (if c = v then 1 else 0)"
  by (simp add: touched_def lineage_None)

lemma touched_Some:
  "parent (h ! v) = Some p \<Longrightarrow> p < v \<Longrightarrow> touched h v c = (if c = v then 1 else touched h p c)"
  by (simp add: touched_def lineage_Some)

lemma touched_above: "v < c \<Longrightarrow> touched h v c = 0"
  using lineage_le [of c h v] by (auto simp: touched_def)

lemma touched_self: "touched h v v = 1"
  by (simp add: touched_def lineage_hd)

lemma touched_range: "0 \<le> touched h v i \<and> touched h v i \<le> 1"
  by (simp add: touched_def)

lemma children_touched:
  assumes wf: "wf_heap h"
  shows "v < length h \<Longrightarrow> i < length h \<Longrightarrow>
         sum_list (map (\<lambda>c. touched h v c) (children (h ! i))) \<le> touched h v i"
proof (induction v rule: less_induct)
  case (less v)
  have up: "\<forall>i < length h. 0 < i \<longrightarrow> (\<exists>p < i. parent (h ! i) = Some p \<and> i \<in> set (children (h ! p)))"
    and down: "\<forall>i < length h. \<forall>c \<in> set (children (h ! i)). c < length h \<and> parent (h ! c) = Some i"
    and dist: "\<forall>i < length h. distinct (children (h ! i))"
    using wf unfolding wf_heap_def by blast+
  have pb: "parents_below h" using wf by (rule wf_heap_parents_below)
  let ?cs = "children (h ! i)"
  have par: "\<And>c. c \<in> set ?cs \<Longrightarrow> parent (h ! c) = Some i" using down less.prems(2) by blast
  show ?case
  proof (cases "parent (h ! v)")
    case None
    have "\<And>c. c \<in> set ?cs \<Longrightarrow> touched h v c = 0"
      using par None by (auto simp: touched_None)
    then have "sum_list (map (\<lambda>c. touched h v c) ?cs) = sum_list (map (\<lambda>c. 0) ?cs)"
      by (rule sum_list_map_eq)
    then have "sum_list (map (\<lambda>c. touched h v c) ?cs) = 0" by simp
    then show ?thesis using touched_range [of h v i] by simp
  next
    case (Some p)
    have pv: "p < v" using pb less.prems(1) Some unfolding parents_below_def by blast
    have pl: "p < length h" using pv less.prems(1) by simp
    have v0: "0 < v" using pv by simp
    have vin: "v \<in> set (children (h ! p))" using up less.prems(1) v0 Some by fastforce
    show ?thesis
    proof (cases "i = p")
      case True
      have "\<And>c. c \<in> set ?cs \<Longrightarrow> touched h v c = (if c = v then 1 else 0)"
      proof -
        fix c assume c: "c \<in> set ?cs"
        have "p < c" using wf_heap_child_gt [OF wf less.prems(2) c] True by simp
        then have "touched h p c = 0" by (rule touched_above)
        then show "touched h v c = (if c = v then 1 else 0)"
          by (simp add: touched_Some [OF Some pv])
      qed
      then have "sum_list (map (\<lambda>c. touched h v c) ?cs) =
                 sum_list (map (\<lambda>c. if c = v then 1 else 0) ?cs)"
        by (rule sum_list_map_eq)
      then have "sum_list (map (\<lambda>c. touched h v c) ?cs) = (if v \<in> set ?cs then 1 else 0)"
        using sum_list_indicator [of ?cs v] dist less.prems(2) by simp
      moreover have "touched h v i = 1"
        using True pv by (simp add: touched_Some [OF Some pv] touched_self)
      ultimately show ?thesis by simp
    next
      case False
      have "\<And>c. c \<in> set ?cs \<Longrightarrow> touched h v c = touched h p c"
        using par Some False by (auto simp: touched_Some [OF Some pv])
      then have "sum_list (map (\<lambda>c. touched h v c) ?cs) = sum_list (map (\<lambda>c. touched h p c) ?cs)"
        by (rule sum_list_map_eq)
      also have "\<dots> \<le> touched h p i" by (rule less.IH [OF pv pl less.prems(2)])
      also have "\<dots> \<le> touched h v i"
        using touched_range [of h p i] by (auto simp: touched_Some [OF Some pv])
      finally show ?thesis .
    qed
  qed
qed

lemma backpropagate_stats:
  assumes wf: "wf_heap h" and v: "v < length h"
  shows "\<exists>h'. backpropagate h v r = Some h' \<and> stats_only h h' \<and>
           (\<forall>i < length h. visit (h' ! i) = visit (h ! i) + touched h v i)"
proof -
  from backpropagate_result [OF wf_heap_parents_below [OF wf] v, of r] obtain h' where
    h': "backpropagate h v r = Some h'" "length h' = length h"
        "\<forall>i < length h. h' ! i = (h ! i)\<lparr>visit := visit (h ! i) + touched h v i,
             utility := utility (h ! i) + signed_share r (lineage h v) i\<rparr>"
    by blast
  have "stats_only h h'" unfolding stats_only_def using h'(2,3) by blast
  moreover have "\<forall>i < length h. visit (h' ! i) = visit (h ! i) + touched h v i"
    using h'(3) by simp
  ultimately show ?thesis using h'(1) by blast
qed

lemma visits_inv_backpropagated:
  assumes wf: "wf_heap h" and v: "v < length h" and inv: "visits_inv h"
    and so: "stats_only h h'"
    and vis: "\<forall>i < length h. visit (h' ! i) = visit (h ! i) + touched h v i"
  shows "visits_inv h'"
proof -
  have len: "length h' = length h" using so unfolding stats_only_def by simp
  have down: "\<forall>i < length h. \<forall>c \<in> set (children (h ! i)). c < length h"
    using wf unfolding wf_heap_def by blast
  have "\<forall>i < length h'. 0 \<le> visit (h' ! i) \<and> child_visits h' i \<le> visit (h' ! i)"
  proof (intro allI impI)
    fix i assume "i < length h'"
    then have il: "i < length h" using len by simp
    have nn: "0 \<le> visit (h' ! i)"
      using inv il vis touched_range [of h v i] unfolding visits_inv_def by auto
    have "\<And>c. c \<in> set (children (h ! i)) \<Longrightarrow> visit (h' ! c) = visit (h ! c) + touched h v c"
      using down il vis by auto
    then have "sum_list (map (\<lambda>c. visit (h' ! c)) (children (h ! i))) =
          sum_list (map (\<lambda>c. visit (h ! c) + touched h v c) (children (h ! i)))"
      by (rule sum_list_map_eq)
    then have "child_visits h' i =
          sum_list (map (\<lambda>c. visit (h ! c) + touched h v c) (children (h ! i)))"
      by (simp add: child_visits_def stats_only_fields(2) [OF so il])
    also have "\<dots> = child_visits h i + sum_list (map (\<lambda>c. touched h v c) (children (h ! i)))"
      by (simp add: child_visits_def sum_list_addf)
    also have "\<dots> \<le> visit (h ! i) + touched h v i"
      using children_touched [OF wf v il] inv il unfolding visits_inv_def by auto
    also have "\<dots> = visit (h' ! i)" using vis il by simp
    finally show "0 \<le> visit (h' ! i) \<and> child_visits h' i \<le> visit (h' ! i)" using nn by simp
  qed
  then show ?thesis unfolding visits_inv_def .
qed

lemma visited_backpropagated:
  assumes v: "v < length h" and inv: "visits_inv h" and ve: "visited_except h v"
    and len: "length h' = length h"
    and vis: "\<forall>i < length h. visit (h' ! i) = visit (h ! i) + touched h v i"
  shows "visited_except h' 0"
  unfolding visited_except_def
proof (intro allI impI)
  fix i assume i: "i < length h'" "0 < i" "i \<noteq> 0"
  then have il: "i < length h" using len by simp
  show "0 < visit (h' ! i)"
  proof (cases "i = v")
    case True
    have "0 \<le> visit (h ! v)" using inv v unfolding visits_inv_def by blast
    then show ?thesis using vis v True by (simp add: touched_self)
  next
    case False
    then have "0 < visit (h ! i)" using ve il i(2) unfolding visited_except_def by blast
    then show ?thesis using vis il touched_range [of h v i] by auto
  qed
qed

lemma tree_policy_loop_post:
  "tree_policy_loop g r s cur = Some res \<Longrightarrow> wf_heap (nodes s) \<Longrightarrow> cur < length (nodes s) \<Longrightarrow>
   tree_policy_post g r s res"
proof (induction g r s cur res
    rule: tree_policy_loop.raw_induct [rotated 1, consumes 1, case_names step])
  case (step tpl g r s cur res)
  note IH = step.IH and body = step.hyps and wf = step.prems(1) and cur = step.prems(2)
  let ?h = "nodes s"
  show ?case
  proof (cases "is_terminal_node g (?h ! cur)")
    case True
    then have "res = Inr (s, cur)" using body by simp
    then show ?thesis using True cur by (simp add: tree_policy_post_def)
  next
    case nt: False
    show ?thesis
    proof (cases "is_fully_expanded (?h ! cur)")
      case False
      then have ne: "untried_actions (?h ! cur) \<noteq> []" by (simp add: is_fully_expanded_def)
      have "res = Inr (s\<lparr>nodes := expanded g ?h cur
                        (untried_actions (?h ! cur) ! (r mod length (untried_actions (?h ! cur)))),
                    node_no := node_no s + 1\<rparr>, length ?h)"
        using body nt False expand_result [OF cur ne, of g r] by simp
      then show ?thesis using ne cur unfolding tree_policy_post_def by auto
    next
      case True
      show ?thesis
      proof (cases "best_child g 0.5 ?h cur")
        case (Inl e)
        then have "res = Inl e" using body nt True by simp
        then show ?thesis using Inl cur unfolding tree_policy_post_def by auto
      next
        case (Inr c)
        then have rec: "tpl g r s c = Some res" using body nt True by simp
        have "c \<in> set (children (?h ! cur))" using Inr by (rule best_child_mem)
        then have "c < length ?h" using wf_heap_child_gt [OF wf cur] by blast
        from IH [OF rec wf this] show ?thesis .
      qed
    qed
  qed
qed

lemma rollout_error: "rollout g rs st = Some (Inl e) \<Longrightarrow> e = IndexError"
proof (induction g rs st rule: rollout.induct)
  case (1 g rs st)
  show ?case
  proof (cases "terminal_test g st")
    case True
    with "1.prems" show ?thesis by (simp add: rollout.simps [of g rs st])
  next
    case nt: False
    show ?thesis
    proof (cases rs)
      case Nil
      with "1.prems" nt show ?thesis by (simp add: rollout.simps [of g "[]" st])
    next
      case (Cons r rs')
      show ?thesis
      proof (cases "random_choice r (actions g st)")
        case (Inl e')
        then have "e' = IndexError" by (auto simp: random_choice_def split: if_splits)
        with "1.prems" nt Cons Inl show ?thesis by (simp add: rollout.simps [of g "r # rs'" st])
      next
        case (Inr a)
        with "1.prems" nt Cons have "rollout g rs' (result g st a) = Some (Inl e)"
          by (simp add: rollout.simps [of g "r # rs'" st])
        from "1.IH" [OF nt Cons Inr this] show ?thesis .
      qed
    qed
  qed
qed

lemma playout_policy_error: "playout_policy g rs n pid = Some (Inl e) \<Longrightarrow> e = IndexError"
  unfolding playout_policy_def
  by (auto split: option.splits sum.splits dest: rollout_error)

lemma score_zero_division: "score c p t = Inl ZeroDivisionError \<Longrightarrow> visit t = 0"
  unfolding score_def Let_def by (auto split: if_splits)

lemma best_child_no_zero_division:
  assumes wf: "wf_heap h" and ve: "visited_except h 0" and self: "self < length h"
  shows "best_child g c h self \<noteq> Inl ZeroDivisionError"
proof
  assume "best_child g c h self = Inl ZeroDivisionError"
  from best_child_error [OF this] obtain t where
    t: "t \<in> set (children (h ! self))" "score c (h ! self) (h ! t) = Inl ZeroDivisionError"
    by auto
  from wf_heap_child_gt [OF wf self t(1)] have "0 < t" "t < length h" by auto
  then have "0 < visit (h ! t)" using ve unfolding visited_except_def by blast
  with score_zero_division [OF t(2)] show False by simp
qed

lemma grows_refl: "grows h h"
  by (simp add: grows_def)

lemma grows_trans: "grows h1 h2 \<Longrightarrow> grows h2 h3 \<Longrightarrow> grows h1 h3"
  unfolding grows_def by auto

lemma grows_expanded: "self < length h \<Longrightarrow> grows h (expanded g h self a)"
  unfolding grows_def by (auto simp: expanded_fields)

lemma grows_stats_only: "stats_only h h' \<Longrightarrow> grows h h'"
  unfolding grows_def using stats_only_fields [of h h'] by (simp add: stats_only_def)

lemma visited_except_weaken: "visited_except h 0 \<Longrightarrow> visited_except h v"
  unfolding visited_except_def by blast

lemma tree_policy_inv:
  assumes inv: "engine_inv g s" and tp: "tree_policy g r s = Some (Inr (s1, v))"
  shows "after_tree_policy g s s1 v"
proof -
  let ?h = "nodes s"
  have r0: "root s = 0" and wf: "wf_heap ?h" and vi: "visits_inv ?h"
    and ve: "visited_except ?h 0" and ei: "expansion_inv g ?h"
    using inv unfolding engine_inv_def by blast+
  have l0: "0 < length ?h" using wf unfolding wf_heap_def by simp
  have "tree_policy_loop g r s 0 = Some (Inr (s1, v))" using tp r0 by (simp add: tree_policy_def)
  from tree_policy_loop_post [OF this wf l0]
  consider (stay) "s1 = s" "v < length ?h"
    | (grow) self where "self < length ?h" "untried_actions (?h ! self) \<noteq> []"
        "s1 = s\<lparr>nodes := expanded g ?h self
                   (untried_actions (?h ! self) ! (r mod length (untried_actions (?h ! self)))),
               node_no := node_no s + 1\<rparr>" "v = length ?h"
    unfolding tree_policy_post_def by auto
  then show ?thesis
  proof cases
    case stay
    then show ?thesis
      unfolding after_tree_policy_def
      using r0 wf vi ei visited_except_weaken [OF ve] grows_refl by auto
  next
    case grow
    let ?a = "untried_actions (?h ! self) ! (r mod length (untried_actions (?h ! self)))"
    have a: "?a \<in> set (untried_actions (?h ! self))" using grow(2) by simp
    have n1: "nodes s1 = expanded g ?h self ?a" using grow(3) by simp
    have "\<forall>i < length (nodes s1).
        visit (nodes s1 ! i) = (if i < length ?h then visit (?h ! i) else 0)"
      unfolding n1 by (auto simp: expanded_fields expanded_new_fields less_Suc_eq)
    then show ?thesis
      unfolding after_tree_policy_def
      using r0 grow(3,4) n1 wf_heap_expanded [OF wf grow(1), of g ?a]
        visits_inv_expanded [OF wf grow(1) vi, of g ?a]
        visited_except_expanded [OF ve, of g self ?a] expansion_inv_expanded [OF wf grow(1) ei a]
        grows_expanded [OF grow(1), of g ?a]
      by simp
  qed
qed

lemma touched_stats_only:
  assumes "stats_only h h'" and "v < length h"
  shows "touched h' v i = touched h v i"
proof -
  have "lineage h' v = lineage h v"
    by (rule lineage_parents_cong) (use assms stats_only_fields(1) [OF assms(1)] in auto)
  then show ?thesis by (simp add: touched_def)
qed

text \<open>
  One iteration keeps the invariant of the loop, keeps the nodes that were there, and
  adds one visit exactly to the nodes on the parent chain of the node \<open>v\<close> where its
  backpropagation starts.
\<close>

lemma iteration_inv:
  assumes inv: "engine_inv g s" and it: "iteration g rnd s = Some (Inr (s', v))"
  shows "engine_inv g s' \<and> v < length (nodes s') \<and> grows (nodes s) (nodes s') \<and>
         (\<forall>i < length (nodes s').
            visit (nodes s' ! i) =
              (if i < length (nodes s) then visit (nodes s ! i) else 0) + touched (nodes s') v i)"
proof -
  from it obtain s1 reward h2 where
    tp: "tree_policy g (fst rnd) s = Some (Inr (s1, v))"
    and bp: "backpropagate (nodes s1) v reward = Some h2"
    and s': "s' = s1\<lparr>nodes := h2\<rparr>"
    unfolding iteration_def by (auto split: option.splits sum.splits)
  let ?h1 = "nodes s1"
  from tree_policy_inv [OF inv tp] have
    r0: "root s1 = 0" and wf: "wf_heap ?h1" and vi: "visits_inv ?h1"
    and ve: "visited_except ?h1 v" and ei: "expansion_inv g ?h1" and v: "v < length ?h1"
    and gr: "grows (nodes s) ?h1"
    and vis1: "\<forall>i < length ?h1. visit (?h1 ! i) = (if i < length (nodes s) then visit (nodes s ! i) else 0)"
    unfolding after_tree_policy_def by blast+
  from backpropagate_stats [OF wf v, of reward] bp have
    so: "stats_only ?h1 h2"
    and vis2: "\<forall>i < length ?h1. visit (h2 ! i) = visit (?h1 ! i) + touched ?h1 v i"
    by auto
  have len: "length h2 = length ?h1" using so unfolding stats_only_def by simp
  have n': "nodes s' = h2" "root s' = 0" using s' r0 by simp_all
  have inv': "engine_inv g s'"
    unfolding engine_inv_def n'
    using wf_heap_stats_only [OF wf so] visits_inv_backpropagated [OF wf v vi so vis2]
      visited_backpropagated [OF v vi ve len vis2] expansion_inv_stats_only [OF wf ei so]
    by simp
  have gr': "grows (nodes s) (nodes s')"
    unfolding n' using grows_trans [OF gr grows_stats_only [OF so]] .
  have "\<forall>i < length h2. visit (h2 ! i) =
          (if i < length (nodes s) then visit (nodes s ! i) else 0) + touched h2 v i"
    using vis1 vis2 len touched_stats_only [OF so v] by simp
  then show ?thesis using inv' gr' v len unfolding n' by simp
qed

lemma iteration_error:
  fixes s :: "('s, 'a) MCTSSearch"
  assumes inv: "engine_inv g s" and it: "iteration g rnd s = Some (Inl e)"
  shows "e \<noteq> ZeroDivisionError"
proof -
  let ?h = "nodes s"
  have r0: "root s = 0" and wf: "wf_heap ?h" and ve: "visited_except ?h 0"
    using inv unfolding engine_inv_def by blast+
  have l0: "0 < length ?h" using wf unfolding wf_heap_def by simp
  from it have "tree_policy g (fst rnd) s = Some (Inl e) \<or> e = IndexError"
    unfolding iteration_def
    by (auto split: option.splits sum.splits dest: playout_policy_error)
  then consider (tp) "tree_policy g (fst rnd) s = Some (Inl e)" | (po) "e = IndexError"
    by blast
  then show ?thesis
  proof cases
    case tp
    then have "tree_policy_loop g (fst rnd) s 0 = Some (Inl e)" using r0 by (simp add: tree_policy_def)
    from tree_policy_loop_post [OF this wf l0] obtain self where
      "self < length ?h" "best_child g 0.5 ?h self = Inl e"
      unfolding tree_policy_post_def by auto
    then show ?thesis using best_child_no_zero_division [OF wf ve] by metis
  next
    case po
    then show ?thesis by simp
  qed
qed

lemma engine_inv_fresh: "engine_inv g (fresh g st)"
  unfolding engine_inv_def fresh_def MCTSSearch_init_def MCTSNode_init_def wf_heap_def
    visits_inv_def visited_except_def expansion_inv_def child_visits_def child_actions_def
  by simp

lemma touched_grows:
  assumes "grows h h'" and "v < length h"
  shows "touched h' v i = touched h v i"
proof -
  have "lineage h' v = lineage h v"
    by (rule lineage_parents_cong) (use assms in \<open>auto simp: grows_def\<close>)
  then show ?thesis by (simp add: touched_def)
qed

lemma passes_through_Cons:
  "int (passes_through h (v # vs) i) = touched h v i + int (passes_through h vs i)"
  by (simp add: passes_through_def touched_def)

lemma lineage_root:
  assumes wf: "wf_heap h" and v: "v < length h"
  shows "0 \<in> set (lineage h v)"
proof -
  let ?l = "last (lineage h v)"
  have mem: "?l \<in> set (lineage h v)" using lineage_nonempty [of h v] by simp
  then have "?l \<le> v" by (rule lineage_le)
  then have ll: "?l < length h" using v by simp
  have "parent (h ! ?l) = None" by (rule lineage_last [OF wf_heap_parents_below [OF wf] v])
  then have "?l = 0" using wf ll unfolding wf_heap_def by (metis not_gr_zero option.distinct(1))
  then show ?thesis using mem by simp
qed

lemma passes_through_root:
  assumes wf: "wf_heap h" and vs: "\<forall>v \<in> set vs. v < length h"
  shows "passes_through h vs 0 = length vs"
proof -
  have "filter (\<lambda>v. 0 \<in> set (lineage h v)) vs = vs"
    using vs lineage_root [OF wf] by (simp add: filter_id_conv)
  then show ?thesis by (simp add: passes_through_def)
qed

lemma iterate_inv:
  "engine_inv g s \<Longrightarrow> iterate g rnds s = Some (Inr (s', vs)) \<Longrightarrow>
   engine_inv g s' \<and> length vs = length rnds \<and> grows (nodes s) (nodes s') \<and>
   (\<forall>v \<in> set vs. v < length (nodes s')) \<and>
   (\<forall>i < length (nodes s').
      visit (nodes s' ! i) =
        (if i < length (nodes s) then visit (nodes s ! i) else 0) +
        int (passes_through (nodes s') vs i))"
proof (induction rnds arbitrary: s s' vs)
  case Nil
  then show ?case by (simp add: grows_refl passes_through_def)
next
  case (Cons rnd rnds)
  from Cons.prems(2) obtain s1 v vs' where
    it: "iteration g rnd s = Some (Inr (s1, v))"
    and rest: "iterate g rnds s1 = Some (Inr (s', vs'))"
    and vs: "vs = v # vs'"
    by (auto split: option.splits sum.splits)
  from iteration_inv [OF Cons.prems(1) it] have
    inv1: "engine_inv g s1" and v1: "v < length (nodes s1)" and gr1: "grows (nodes s) (nodes s1)"
    and vis1: "\<forall>i < length (nodes s1). visit (nodes s1 ! i) =
              (if i < length (nodes s) then visit (nodes s ! i) else 0) + touched (nodes s1) v i"
    by blast+
  from Cons.IH [OF inv1 rest] have
    inv': "engine_inv g s'" and len: "length vs' = length rnds"
    and gr2: "grows (nodes s1) (nodes s')"
    and bound: "\<forall>v \<in> set vs'. v < length (nodes s')"
    and vis2: "\<forall>i < length (nodes s'). visit (nodes s' ! i) =
              (if i < length (nodes s1) then visit (nodes s1 ! i) else 0) +
              int (passes_through (nodes s') vs' i)"
    by blast+
  have l1: "length (nodes s) \<le> length (nodes s1)" using gr1 by (simp add: grows_def)
  have l2: "length (nodes s1) \<le> length (nodes s')" using gr2 by (simp add: grows_def)
  have "\<forall>i < length (nodes s'). visit (nodes s' ! i) =
          (if i < length (nodes s) then visit (nodes s ! i) else 0) +
          int (passes_through (nodes s') vs i)"
  proof (intro allI impI)
    fix i assume i: "i < length (nodes s')"
    show "visit (nodes s' ! i) =
          (if i < length (nodes s) then visit (nodes s ! i) else 0) +
          int (passes_through (nodes s') vs i)"
    proof (cases "i < length (nodes s1)")
      case True
      have "touched (nodes s') v i = touched (nodes s1) v i" by (rule touched_grows [OF gr2 v1])
      then show ?thesis using vis1 vis2 i True by (simp add: vs passes_through_Cons)
    next
      case False
      then have "v < i" using v1 by simp
      then have "touched (nodes s') v i = 0" by (rule touched_above)
      then show ?thesis using vis2 i False l1 by (simp add: vs passes_through_Cons)
    qed
  qed
  then show ?case
    using inv' len vs bound v1 l2 grows_trans [OF gr1 gr2] by auto
qed

text \<open>
  Every state in which the loop of \<^verbatim>\<open>best_action\<close> ends is the state after a number
  of completed iterations: the clock only decides how many elements of the random input
  are used.
\<close>

lemma search_loop_iterate:
  "search_loop g start allowed clock rnds s = Some (Inr s') \<Longrightarrow>
   \<exists>k vs. k \<le> length rnds \<and> iterate g (take k rnds) s = Some (Inr (s', vs))"
proof (induction clock arbitrary: rnds s)
  case Nil
  then show ?case by simp
next
  case (Cons now clock)
  show ?case
  proof (cases "(now - start) * 1000 \<le> real_of_int allowed")
    case False
    with Cons.prems have "s' = s" by simp
    then have "iterate g (take 0 rnds) s = Some (Inr (s', []))" by simp
    then show ?thesis by blast
  next
    case True
    with Cons.prems obtain rnd rnds' s1 v where
      r: "rnds = rnd # rnds'" and it: "iteration g rnd s = Some (Inr (s1, v))"
      and rest: "search_loop g start allowed clock rnds' s1 = Some (Inr s')"
      by (auto split: list.splits option.splits sum.splits)
    from Cons.IH [OF rest] obtain k vs where
      k: "k \<le> length rnds'" "iterate g (take k rnds') s1 = Some (Inr (s', vs))" by blast
    have "iterate g (take (Suc k) rnds) s = Some (Inr (s', v # vs))"
      using r it k(2) by simp
    moreover have "Suc k \<le> length rnds" using r k(1) by simp
    ultimately show ?thesis by blast
  qed
qed

lemma search_loop_inv:
  assumes "engine_inv g s" and "search_loop g start allowed clock rnds s = Some (Inr s')"
  shows "engine_inv g s'"
proof -
  from search_loop_iterate [OF assms(2)] obtain k vs where
    "iterate g (take k rnds) s = Some (Inr (s', vs))" by blast
  from iterate_inv [OF assms(1) this] show ?thesis by blast
qed

lemma search_loop_error:
  "engine_inv g s \<Longrightarrow> search_loop g start allowed clock rnds s = Some (Inl e) \<Longrightarrow>
   e \<noteq> ZeroDivisionError"
proof (induction clock arbitrary: rnds s)
  case Nil
  then show ?case by simp
next
  case (Cons now clock)
  show ?case
  proof (cases "(now - start) * 1000 \<le> real_of_int allowed")
    case False
    with Cons.prems show ?thesis by simp
  next
    case True
    with Cons.prems obtain rnd rnds' where r: "rnds = rnd # rnds'"
      by (auto split: list.splits)
    show ?thesis
    proof (cases "iteration g rnd s")
      case None
      with Cons.prems True r show ?thesis by simp
    next
      case (Some res)
      show ?thesis
      proof (cases res)
        case (Inl e')
        then have "e' = e" using Cons.prems True r Some by simp
        then show ?thesis using iteration_error [OF Cons.prems(1)] Some Inl by blast
      next
        case (Inr p)
        obtain s1 v where p: "p = (s1, v)" by (cases p)
        have inv1: "engine_inv g s1" using iteration_inv [OF Cons.prems(1)] Some Inr p by blast
        have "search_loop g start allowed clock rnds' s1 = Some (Inl e)"
          using Cons.prems True r Some Inr p by simp
        from Cons.IH [OF inv1 this] show ?thesis .
      qed
    qed
  qed
qed

subsection \<open>The search as a whole\<close>

text \<open>Concrete runs on the small game, evaluated by the simplifier.\<close>

lemmas run_simps = iteration_def tree_policy_def tree_policy_loop.simps fresh_def
  MCTSSearch_init_def MCTSNode_init_def is_terminal_node_def is_fully_expanded_def nim_def
  expand_def random_choice_def playout_policy_def rollout.simps backpropagate.simps Let_def
  best_child_def score_def heuristic_score_def

lemma nim_run3:
  "iterate nim [(0, []), (0, []), (0, [])] (fresh nim (1, 2)) = Some (Inr (nim_after3, [1, 1, 1]))"
  by (simp add: run_simps nim_after3_def)

lemma nim_run1:
  "iterate nim [(0, [])] (fresh nim (1, 2)) = Some (Inr (nim_after1, [1]))"
  by (simp add: run_simps nim_after1_def)

lemma nim_run2:
  "iterate nim [(0, []), (0, [])] nim_after1 = Some (Inr (nim_after3, [1, 1]))"
  by (simp add: run_simps nim_after1_def nim_after3_def)

lemma member_le_sum_list:
  "x \<in> set xs \<Longrightarrow> \<forall>y \<in> set xs. 0 \<le> y \<Longrightarrow> x \<le> (sum_list xs :: int)"
proof (induction xs)
  case Nil
  then show ?case by simp
next
  case (Cons a xs)
  have nn: "0 \<le> sum_list xs" using Cons.prems(2) by (simp add: sum_list_nonneg)
  show ?case
  proof (cases "x = a")
    case True
    then show ?thesis using nn by simp
  next
    case False
    then have "x \<le> sum_list xs" using Cons by simp
    then show ?thesis using Cons.prems(2) by simp
  qed
qed

lemma child_visit_le:
  assumes wf: "wf_heap h" and vi: "visits_inv h" and i: "i < length h"
    and t: "t \<in> set (children (h ! i))"
  shows "visit (h ! t) \<le> visit (h ! i)"
proof -
  have "\<forall>c \<in> set (children (h ! i)). 0 \<le> visit (h ! c)"
    using wf vi i unfolding wf_heap_def visits_inv_def by blast
  then have "visit (h ! t) \<le> child_visits h i"
    unfolding child_visits_def using t by (intro member_le_sum_list) auto
  also have "\<dots> \<le> visit (h ! i)" using vi i unfolding visits_inv_def by blast
  finally show ?thesis .
qed

lemma child_score_defined:
  assumes wf: "wf_heap h" and vi: "visits_inv h" and ve: "visited_except h 0"
    and i: "i < length h" and t: "t \<in> set (children (h ! i))"
  shows "0 < visit (h ! t) \<and> visit (h ! t) \<le> visit (h ! i) \<and>
         score c (h ! i) (h ! t) = Inr (selection_score c (h ! i) (h ! t))"
proof -
  from wf_heap_child_gt [OF wf i t] have "0 < t" "t < length h" by auto
  then have pos: "0 < visit (h ! t)" using ve unfolding visited_except_def by blast
  have le: "visit (h ! t) \<le> visit (h ! i)" by (rule child_visit_le [OF wf vi i t])
  show ?thesis using pos le score_defined [OF pos le] by simp
qed

lemma tree_policy_no_zero_division:
  assumes inv: "engine_inv g s"
  shows "tree_policy g r s \<noteq> Some (Inl ZeroDivisionError)"
proof
  assume tp: "tree_policy g r s = Some (Inl ZeroDivisionError)"
  let ?h = "nodes s"
  have r0: "root s = 0" and wf: "wf_heap ?h" and ve: "visited_except ?h 0"
    using inv unfolding engine_inv_def by blast+
  have l0: "0 < length ?h" using wf unfolding wf_heap_def by simp
  have "tree_policy_loop g r s 0 = Some (Inl ZeroDivisionError)"
    using tp r0 by (simp add: tree_policy_def)
  from tree_policy_loop_post [OF this wf l0] obtain self where
    "self < length ?h" "best_child g 0.5 ?h self = Inl ZeroDivisionError"
    unfolding tree_policy_post_def by auto
  then show False using best_child_no_zero_division [OF wf ve] by metis
qed

lemma best_action_no_zero_division:
  "best_action g clock rnds t c (fresh g st) \<noteq> Some (Inl ZeroDivisionError)"
proof
  assume ba: "best_action g clock rnds t c (fresh g st) = Some (Inl ZeroDivisionError)"
  then obtain start clock' where cl: "clock = start # clock'"
    unfolding best_action_def by (auto split: list.splits)
  let ?loop = "search_loop g start (allowed_time t) clock' rnds (fresh g st)"
  from ba cl consider (loop) "?loop = Some (Inl ZeroDivisionError)"
    | (final) s1 where "?loop = Some (Inr s1)"
        "best_child g c (nodes s1) (root s1) = Inl ZeroDivisionError"
    unfolding best_action_def by (auto split: option.splits sum.splits)
  then show False
  proof cases
    case loop
    from search_loop_error [OF engine_inv_fresh this] show False by simp
  next
    case final
    from search_loop_inv [OF engine_inv_fresh final(1)] have inv: "engine_inv g s1" .
    then have r0: "root s1 = 0" and wf: "wf_heap (nodes s1)" and ve: "visited_except (nodes s1) 0"
      unfolding engine_inv_def by blast+
    have l0: "0 < length (nodes s1)" using wf unfolding wf_heap_def by simp
    from best_child_no_zero_division [OF wf ve l0, of g c] final(2) r0 show False by simp
  qed
qed

text \<open>
  C5: after any number of completed iterations from a fresh search, every node other
  than the root has been visited at least once, so no child that the selection formula
  can read has a visit count of zero: the score of a child never raises
  ZeroDivisionError, neither in the descent of \<^verbatim>\<open>tree_policy\<close>, nor in a further
  iteration, nor in the final selection; and \<^verbatim>\<open>best_action\<close> as a whole never ends in
  ZeroDivisionError, whatever the clock readings and random numbers.
\<close>

theorem selection_never_divides_by_zero:
  assumes "iterate g rnds (fresh g st) = Some (Inr (s', vs))"
  shows "(\<forall>i < length (nodes s'). 0 < i \<longrightarrow> 1 \<le> visit (nodes s' ! i)) \<and>
         (\<forall>i < length (nodes s'). \<forall>t \<in> set (children (nodes s' ! i)).
            score c (nodes s' ! i) (nodes s' ! t) \<noteq> Inl ZeroDivisionError) \<and>
         (\<forall>r. tree_policy g r s' \<noteq> Some (Inl ZeroDivisionError)) \<and>
         (\<forall>rnd. iteration g rnd s' \<noteq> Some (Inl ZeroDivisionError)) \<and>
         best_child g c (nodes s') (root s') \<noteq> Inl ZeroDivisionError \<and>
         (\<forall>clock t. best_action g clock rnds t c (fresh g st) \<noteq> Some (Inl ZeroDivisionError))"
proof -
  from iterate_inv [OF engine_inv_fresh assms] have inv: "engine_inv g s'" by blast
  then have r0: "root s' = 0" and wf: "wf_heap (nodes s')" and vi: "visits_inv (nodes s')"
    and ve: "visited_except (nodes s') 0"
    unfolding engine_inv_def by blast+
  have l0: "0 < length (nodes s')" using wf unfolding wf_heap_def by simp
  have a: "\<forall>i < length (nodes s'). 0 < i \<longrightarrow> 1 \<le> visit (nodes s' ! i)"
    using ve unfolding visited_except_def by fastforce
  have b: "\<forall>i < length (nodes s'). \<forall>t \<in> set (children (nodes s' ! i)).
            score c (nodes s' ! i) (nodes s' ! t) \<noteq> Inl ZeroDivisionError"
    using child_score_defined [OF wf vi ve] by fastforce
  have c: "\<forall>r. tree_policy g r s' \<noteq> Some (Inl ZeroDivisionError)"
    using tree_policy_no_zero_division [OF inv] by blast
  have d: "\<forall>rnd. iteration g rnd s' \<noteq> Some (Inl ZeroDivisionError)"
    using iteration_error [OF inv] by blast
  have e: "best_child g c (nodes s') (root s') \<noteq> Inl ZeroDivisionError"
    using best_child_no_zero_division [OF wf ve l0, of g c] r0 by simp
  have f: "\<forall>clock t. best_action g clock rnds t c (fresh g st) \<noteq> Some (Inl ZeroDivisionError)"
    by (intro allI best_action_no_zero_division)
  show ?thesis using a b c d e f by blast
qed

text \<open>
  C10, as stated, fails for the points inside a backpropagation pass: \<^verbatim>\<open>backpropagate\<close>
  increments a node before it calls itself on the parent. After one iteration on the
  state with one token the root and its child have one visit each; the second
  iteration selects the child and starts the pass there, and when the pass moves on to
  the root the child has two visits and the root still one.
\<close>

theorem parent_behind_child_inside_pass:
  "iterate nim [(0, [])] (fresh nim (1, 2)) = Some (Inr (nim_after1, [1])) \<and>
   tree_policy nim 0 nim_after1 = Some (Inr (nim_after1, 1)) \<and>
   playout_policy nim [] (nodes nim_after1 ! 1) (player_id nim_after1) = Some (Inr 1) \<and>
   backpropagate (nodes nim_after1) 1 1 = backpropagate nim_inside_pass 0 (- 1) \<and>
   children (nim_inside_pass ! 0) = [1] \<and>
   visit (nim_inside_pass ! 0) = 1 \<and> visit (nim_inside_pass ! 1) = 2"
proof -
  have a: "tree_policy nim 0 nim_after1 = Some (Inr (nim_after1, 1))"
    by (simp add: run_simps nim_after1_def)
  have b: "playout_policy nim [] (nodes nim_after1 ! 1) (player_id nim_after1) = Some (Inr 1)"
    by (simp add: run_simps nim_after1_def)
  have c: "backpropagate (nodes nim_after1) 1 1 = backpropagate nim_inside_pass 0 (- 1)"
    by (subst backpropagate.simps) (simp add: nim_after1_def nim_inside_pass_def Let_def)
  have d: "children (nim_inside_pass ! 0) = [1] \<and>
           visit (nim_inside_pass ! 0) = 1 \<and> visit (nim_inside_pass ! 1) = 2"
    by (simp add: nim_inside_pass_def)
  show ?thesis using nim_run1 a b c d by blast
qed

text \<open>
  C10, amended: at every point between the operations of a search, that is after any
  number of completed iterations from a fresh search and also in the middle of the
  next iteration, when \<^verbatim>\<open>tree_policy\<close> has returned and the backpropagation has not
  started, the visit count of every node is at least the sum of the visit counts of
  its children, whether the node is fully expanded or not, and so at least the visit
  count of each child. Between iterations, where \<^verbatim>\<open>best_child\<close> is evaluated, each
  child has been visited, the ratio of the two visit counts is at least one, the
  operand of the square root is not negative and the score is defined.
\<close>

theorem parent_visits_dominate_children:
  assumes "iterate g rnds (fresh g st) = Some (Inr (s', vs))"
  shows "(\<forall>i < length (nodes s').
            child_visits (nodes s') i \<le> visit (nodes s' ! i) \<and>
            (\<forall>t \<in> set (children (nodes s' ! i)).
               0 < visit (nodes s' ! t) \<and> visit (nodes s' ! t) \<le> visit (nodes s' ! i) \<and>
               1 \<le> real_of_int (visit (nodes s' ! i)) / real_of_int (visit (nodes s' ! t)) \<and>
               0 \<le> 2 * ln (real_of_int (visit (nodes s' ! i)) / real_of_int (visit (nodes s' ! t))) \<and>
               score c (nodes s' ! i) (nodes s' ! t) =
                 Inr (selection_score c (nodes s' ! i) (nodes s' ! t)))) \<and>
         (\<forall>r s1 v. tree_policy g r s' = Some (Inr (s1, v)) \<longrightarrow>
            (\<forall>i < length (nodes s1).
               child_visits (nodes s1) i \<le> visit (nodes s1 ! i) \<and>
               (\<forall>t \<in> set (children (nodes s1 ! i)).
                  visit (nodes s1 ! t) \<le> visit (nodes s1 ! i))))"
proof -
  from iterate_inv [OF engine_inv_fresh assms] have inv: "engine_inv g s'" by blast
  then have wf: "wf_heap (nodes s')" and vi: "visits_inv (nodes s')"
    and ve: "visited_except (nodes s') 0"
    unfolding engine_inv_def by blast+
  have a: "\<forall>i < length (nodes s').
            child_visits (nodes s') i \<le> visit (nodes s' ! i) \<and>
            (\<forall>t \<in> set (children (nodes s' ! i)).
               0 < visit (nodes s' ! t) \<and> visit (nodes s' ! t) \<le> visit (nodes s' ! i) \<and>
               1 \<le> real_of_int (visit (nodes s' ! i)) / real_of_int (visit (nodes s' ! t)) \<and>
               0 \<le> 2 * ln (real_of_int (visit (nodes s' ! i)) / real_of_int (visit (nodes s' ! t))) \<and>
               score c (nodes s' ! i) (nodes s' ! t) =
                 Inr (selection_score c (nodes s' ! i) (nodes s' ! t)))"
  proof (intro allI impI conjI ballI)
    fix i assume i: "i < length (nodes s')"
    show "child_visits (nodes s') i \<le> visit (nodes s' ! i)"
      using vi i unfolding visits_inv_def by blast
    fix t assume t: "t \<in> set (children (nodes s' ! i))"
    from child_score_defined [OF wf vi ve i t, of c] show
      pos: "0 < visit (nodes s' ! t)" and le: "visit (nodes s' ! t) \<le> visit (nodes s' ! i)"
      and "score c (nodes s' ! i) (nodes s' ! t) =
             Inr (selection_score c (nodes s' ! i) (nodes s' ! t))"
      by blast+
    show ratio: "1 \<le> real_of_int (visit (nodes s' ! i)) / real_of_int (visit (nodes s' ! t))"
      using pos le by simp
    then show "0 \<le> 2 * ln (real_of_int (visit (nodes s' ! i)) / real_of_int (visit (nodes s' ! t)))"
      by simp
  qed
  have b: "\<forall>r s1 v. tree_policy g r s' = Some (Inr (s1, v)) \<longrightarrow>
            (\<forall>i < length (nodes s1).
               child_visits (nodes s1) i \<le> visit (nodes s1 ! i) \<and>
               (\<forall>t \<in> set (children (nodes s1 ! i)).
                  visit (nodes s1 ! t) \<le> visit (nodes s1 ! i)))"
  proof (intro allI impI conjI ballI)
    fix r s1 v i
    assume tp: "tree_policy g r s' = Some (Inr (s1, v))" and i: "i < length (nodes s1)"
    from tree_policy_inv [OF inv tp] have wf1: "wf_heap (nodes s1)" and vi1: "visits_inv (nodes s1)"
      unfolding after_tree_policy_def by blast+
    show "child_visits (nodes s1) i \<le> visit (nodes s1 ! i)"
      using vi1 i unfolding visits_inv_def by blast
    fix t assume "t \<in> set (children (nodes s1 ! i))"
    then show "visit (nodes s1 ! t) \<le> visit (nodes s1 ! i)"
      by (rule child_visit_le [OF wf1 vi1 i])
  qed
  show ?thesis using a b by blast
qed

theorem selection_never_divides_by_zero_witness:
  "iterate nim [(0, []), (0, []), (0, [])] (fresh nim (1, 2)) = Some (Inr (nim_after3, [1, 1, 1])) \<and>
   1 \<le> visit (nodes nim_after3 ! 1) \<and>
   score 0.5 (nodes nim_after3 ! 0) (nodes nim_after3 ! 1) \<noteq> Inl ZeroDivisionError \<and>
   best_action nim [0, 0.01, 0.02, 0.03, 1] [(0, []), (0, []), (0, [])] 150 0.5 (fresh nim (1, 2))
     \<noteq> Some (Inl ZeroDivisionError)"
proof -
  note th = selection_never_divides_by_zero [OF nim_run3, of "0.5"]
  have len: "1 < length (nodes nim_after3)" by (simp add: nim_after3_def)
  have ch: "1 \<in> set (children (nodes nim_after3 ! 0))" by (simp add: nim_after3_def)
  have a: "1 \<le> visit (nodes nim_after3 ! 1)" using th len by simp
  have b: "score 0.5 (nodes nim_after3 ! 0) (nodes nim_after3 ! 1) \<noteq> Inl ZeroDivisionError"
    using th len ch by (metis less_trans zero_less_one)
  have c: "best_action nim [0, 0.01, 0.02, 0.03, 1] [(0, []), (0, []), (0, [])] 150 0.5
             (fresh nim (1, 2)) \<noteq> Some (Inl ZeroDivisionError)"
    using th by blast
  show ?thesis using nim_run3 a b c by blast
qed

theorem parent_visits_dominate_children_witness:
  "iterate nim [(0, []), (0, []), (0, [])] (fresh nim (1, 2)) = Some (Inr (nim_after3, [1, 1, 1])) \<and>
   child_visits (nodes nim_after3) 0 \<le> visit (nodes nim_after3 ! 0) \<and>
   visit (nodes nim_after3 ! 1) \<le> visit (nodes nim_after3 ! 0) \<and>
   score 0.5 (nodes nim_after3 ! 0) (nodes nim_after3 ! 1) =
     Inr (selection_score 0.5 (nodes nim_after3 ! 0) (nodes nim_after3 ! 1))"
proof -
  note th = parent_visits_dominate_children [OF nim_run3, of "0.5"]
  have len: "0 < length (nodes nim_after3)" by (simp add: nim_after3_def)
  have ch: "1 \<in> set (children (nodes nim_after3 ! 0))" by (simp add: nim_after3_def)
  from th len have
    a: "child_visits (nodes nim_after3) 0 \<le> visit (nodes nim_after3 ! 0)"
    and b: "\<forall>t \<in> set (children (nodes nim_after3 ! 0)).
               0 < visit (nodes nim_after3 ! t) \<and>
               visit (nodes nim_after3 ! t) \<le> visit (nodes nim_after3 ! 0) \<and>
               1 \<le> real_of_int (visit (nodes nim_after3 ! 0)) / real_of_int (visit (nodes nim_after3 ! t)) \<and>
               0 \<le> 2 * ln (real_of_int (visit (nodes nim_after3 ! 0)) / real_of_int (visit (nodes nim_after3 ! t))) \<and>
               score 0.5 (nodes nim_after3 ! 0) (nodes nim_after3 ! t) =
                 Inr (selection_score 0.5 (nodes nim_after3 ! 0) (nodes nim_after3 ! t))"
    by blast+
  from b ch show ?thesis using nim_run3 a by blast
qed

text \<open>
  C7: after any sequence of completed iterations from a fresh search, the visit count
  of every node is the number of backpropagation passes of these iterations that went
  through the node; the visit count of the root is the number of iterations; and the
  visit count of a fully expanded node is at least the sum of those of its children.
  One more iteration raises the visit count of the nodes on the path of its pass by
  exactly one and leaves the others as they are.
\<close>

theorem visit_conservation:
  assumes "iterate g rnds (fresh g st) = Some (Inr (s', vs))"
  shows "length vs = length rnds \<and>
         (\<forall>i < length (nodes s'). visit (nodes s' ! i) = int (passes_through (nodes s') vs i)) \<and>
         visit (nodes s' ! root s') = int (length rnds) \<and>
         (\<forall>i < length (nodes s'). is_fully_expanded (nodes s' ! i) \<longrightarrow>
            child_visits (nodes s') i \<le> visit (nodes s' ! i)) \<and>
         (\<forall>rnd s'' v. iteration g rnd s' = Some (Inr (s'', v)) \<longrightarrow>
            (\<forall>i < length (nodes s').
               visit (nodes s'' ! i) =
                 visit (nodes s' ! i) + (if i \<in> set (lineage (nodes s'') v) then 1 else 0)))"
proof -
  from iterate_inv [OF engine_inv_fresh assms] have
    inv: "engine_inv g s'" and len: "length vs = length rnds"
    and bound: "\<forall>v \<in> set vs. v < length (nodes s')"
    and vis: "\<forall>i < length (nodes s'). visit (nodes s' ! i) =
               (if i < length (nodes (fresh g st)) then visit (nodes (fresh g st) ! i) else 0) +
               int (passes_through (nodes s') vs i)"
    by blast+
  have r0: "root s' = 0" and wf: "wf_heap (nodes s')" and vi: "visits_inv (nodes s')"
    using inv unfolding engine_inv_def by blast+
  have l0: "0 < length (nodes s')" using wf unfolding wf_heap_def by simp
  have f0: "\<And>i. (if i < length (nodes (fresh g st)) then visit (nodes (fresh g st) ! i) else 0) = 0"
    by (simp add: fresh_def MCTSSearch_init_def MCTSNode_init_def)
  have a: "\<forall>i < length (nodes s'). visit (nodes s' ! i) = int (passes_through (nodes s') vs i)"
    using vis f0 by simp
  have b: "visit (nodes s' ! root s') = int (length rnds)"
    using a l0 r0 len passes_through_root [OF wf bound] by simp
  have c: "\<forall>i < length (nodes s'). is_fully_expanded (nodes s' ! i) \<longrightarrow>
            child_visits (nodes s') i \<le> visit (nodes s' ! i)"
    using vi unfolding visits_inv_def by blast
  have d: "\<forall>rnd s'' v. iteration g rnd s' = Some (Inr (s'', v)) \<longrightarrow>
            (\<forall>i < length (nodes s').
               visit (nodes s'' ! i) =
                 visit (nodes s' ! i) + (if i \<in> set (lineage (nodes s'') v) then 1 else 0))"
  proof (intro allI impI)
    fix rnd s'' v i
    assume it: "iteration g rnd s' = Some (Inr (s'', v))" and i: "i < length (nodes s')"
    from iteration_inv [OF inv it] have
      gr: "grows (nodes s') (nodes s'')"
      and v2: "\<forall>i < length (nodes s''). visit (nodes s'' ! i) =
                (if i < length (nodes s') then visit (nodes s' ! i) else 0) + touched (nodes s'') v i"
      by blast+
    have "i < length (nodes s'')" using gr i by (simp add: grows_def)
    then show "visit (nodes s'' ! i) =
                 visit (nodes s' ! i) + (if i \<in> set (lineage (nodes s'') v) then 1 else 0)"
      using v2 i by (simp add: touched_def)
  qed
  show ?thesis using len a b c d by blast
qed

theorem visit_conservation_witness:
  "iterate nim [(0, []), (0, []), (0, [])] (fresh nim (1, 2)) = Some (Inr (nim_after3, [1, 1, 1])) \<and>
   visit (nodes nim_after3 ! 1) = int (passes_through (nodes nim_after3) [1, 1, 1] 1) \<and>
   visit (nodes nim_after3 ! root nim_after3) = 3"
proof -
  note th = visit_conservation [OF nim_run3]
  have len: "1 < length (nodes nim_after3)" by (simp add: nim_after3_def)
  have a: "visit (nodes nim_after3 ! 1) = int (passes_through (nodes nim_after3) [1, 1, 1] 1)"
    using th len by blast
  have b: "visit (nodes nim_after3 ! root nim_after3) = 3" using th by simp
  show ?thesis using nim_run3 a b by blast
qed

lemma expand_step:
  assumes "i < length h" and "\<not> is_fully_expanded (h ! i)"
  shows "\<exists>a \<in> set (untried_actions (h ! i)). \<exists>h'.
           expand g r h i = Inr (h', length h) \<and> length h' = Suc (length h) \<and>
           untried_actions (h' ! i) = remove1 a (untried_actions (h ! i)) \<and>
           children (h' ! i) = children (h ! i) @ [length h] \<and>
           action (h' ! length h) = Some a \<and>
           state (h' ! length h) = result g (state (h ! i)) a"
proof -
  let ?a = "untried_actions (h ! i) ! (r mod length (untried_actions (h ! i)))"
  have ne: "untried_actions (h ! i) \<noteq> []" using assms(2) by (simp add: is_fully_expanded_def)
  then have a: "?a \<in> set (untried_actions (h ! i))" by simp
  show ?thesis
    using a expand_result [OF assms(1) ne, of g r] assms(1)
    by (intro bexI [of _ ?a] exI [of _ "expanded g h i ?a"])
       (simp_all add: expanded_fields expanded_new_fields)
qed

text \<open>
  C8: after any sequence of completed iterations from a fresh search, for every node:
  the untried actions and the actions of the children together are exactly the legal
  actions of the node's state, each as often as the state lists it (one child for each
  action expanded, no action both untried and expanded); there are no more children
  than legal actions; the node is fully expanded exactly when its untried actions are
  empty, which is exactly when the actions of its children are all the legal actions;
  while it is not, \<^verbatim>\<open>expand\<close> removes one untried action and appends one child carrying
  it; when it is, \<^verbatim>\<open>expand\<close> fails and changes nothing, and the node is still fully
  expanded after any further iterations.
\<close>

theorem expansion_completeness:
  assumes "iterate g rnds1 (fresh g st) = Some (Inr (s1, vs1))"
    and "iterate g rnds2 s1 = Some (Inr (s2, vs2))"
  shows "\<forall>i < length (nodes s1).
           mset (untried_actions (nodes s1 ! i)) + mset (child_actions (nodes s1) i) =
             mset (actions g (state (nodes s1 ! i))) \<and>
           length (children (nodes s1 ! i)) \<le> length (actions g (state (nodes s1 ! i))) \<and>
           (is_fully_expanded (nodes s1 ! i) \<longleftrightarrow> untried_actions (nodes s1 ! i) = []) \<and>
           (is_fully_expanded (nodes s1 ! i) \<longleftrightarrow>
              mset (child_actions (nodes s1) i) = mset (actions g (state (nodes s1 ! i)))) \<and>
           (distinct (actions g (state (nodes s1 ! i))) \<longrightarrow> distinct (child_actions (nodes s1) i)) \<and>
           (\<not> is_fully_expanded (nodes s1 ! i) \<longrightarrow>
              (\<forall>r. \<exists>a \<in> set (untried_actions (nodes s1 ! i)). \<exists>h'.
                 expand g r (nodes s1) i = Inr (h', length (nodes s1)) \<and>
                 untried_actions (h' ! i) = remove1 a (untried_actions (nodes s1 ! i)) \<and>
                 children (h' ! i) = children (nodes s1 ! i) @ [length (nodes s1)] \<and>
                 action (h' ! length (nodes s1)) = Some a)) \<and>
           (is_fully_expanded (nodes s1 ! i) \<longrightarrow>
              (\<forall>r. expand g r (nodes s1) i = Inl IndexError) \<and>
              i < length (nodes s2) \<and> state (nodes s2 ! i) = state (nodes s1 ! i) \<and>
              is_fully_expanded (nodes s2 ! i))"
proof (intro allI impI)
  fix i assume i: "i < length (nodes s1)"
  let ?h = "nodes s1"
  from iterate_inv [OF engine_inv_fresh assms(1)] have inv1: "engine_inv g s1" by blast
  from iterate_inv [OF inv1 assms(2)] have gr: "grows ?h (nodes s2)" by blast
  have ei: "expansion_inv g ?h" using inv1 unfolding engine_inv_def by blast
  have m: "mset (untried_actions (?h ! i)) + mset (child_actions ?h i) =
             mset (actions g (state (?h ! i)))"
    using ei i unfolding expansion_inv_def by blast
  have "size (mset (child_actions ?h i)) \<le> size (mset (actions g (state (?h ! i))))"
    unfolding m [symmetric] by simp
  then have l: "length (children (?h ! i)) \<le> length (actions g (state (?h ! i)))"
    by (simp add: child_actions_def)
  have f1: "is_fully_expanded (?h ! i) \<longleftrightarrow> untried_actions (?h ! i) = []"
    by (simp add: is_fully_expanded_def)
  have f2: "is_fully_expanded (?h ! i) \<longleftrightarrow>
              mset (child_actions ?h i) = mset (actions g (state (?h ! i)))"
    unfolding f1 m [symmetric] by simp
  have d: "distinct (actions g (state (?h ! i))) \<longrightarrow> distinct (child_actions ?h i)"
  proof
    assume "distinct (actions g (state (?h ! i)))"
    then have "distinct (untried_actions (?h ! i) @ child_actions ?h i)"
      using m by (metis distinct_count_atmost_1 mset_append mset_eq_setD count_mset_0_iff
          set_mset_mset mset_eq_imp_distinct_iff)
    then show "distinct (child_actions ?h i)" by simp
  qed
  have e1: "\<not> is_fully_expanded (?h ! i) \<longrightarrow>
              (\<forall>r. \<exists>a \<in> set (untried_actions (?h ! i)). \<exists>h'.
                 expand g r ?h i = Inr (h', length ?h) \<and>
                 untried_actions (h' ! i) = remove1 a (untried_actions (?h ! i)) \<and>
                 children (h' ! i) = children (?h ! i) @ [length ?h] \<and>
                 action (h' ! length ?h) = Some a)"
    using expand_step [OF i, of g] by blast
  have e2: "is_fully_expanded (?h ! i) \<longrightarrow>
              (\<forall>r. expand g r ?h i = Inl IndexError) \<and>
              i < length (nodes s2) \<and> state (nodes s2 ! i) = state (?h ! i) \<and>
              is_fully_expanded (nodes s2 ! i)"
    using gr i expand_empty [of ?h i g] unfolding grows_def f1 is_fully_expanded_def by auto
  show "mset (untried_actions (?h ! i)) + mset (child_actions ?h i) =
             mset (actions g (state (?h ! i))) \<and>
           length (children (?h ! i)) \<le> length (actions g (state (?h ! i))) \<and>
           (is_fully_expanded (?h ! i) \<longleftrightarrow> untried_actions (?h ! i) = []) \<and>
           (is_fully_expanded (?h ! i) \<longleftrightarrow>
              mset (child_actions ?h i) = mset (actions g (state (?h ! i)))) \<and>
           (distinct (actions g (state (?h ! i))) \<longrightarrow> distinct (child_actions ?h i)) \<and>
           (\<not> is_fully_expanded (?h ! i) \<longrightarrow>
              (\<forall>r. \<exists>a \<in> set (untried_actions (?h ! i)). \<exists>h'.
                 expand g r ?h i = Inr (h', length ?h) \<and>
                 untried_actions (h' ! i) = remove1 a (untried_actions (?h ! i)) \<and>
                 children (h' ! i) = children (?h ! i) @ [length ?h] \<and>
                 action (h' ! length ?h) = Some a)) \<and>
           (is_fully_expanded (?h ! i) \<longrightarrow>
              (\<forall>r. expand g r ?h i = Inl IndexError) \<and>
              i < length (nodes s2) \<and> state (nodes s2 ! i) = state (?h ! i) \<and>
              is_fully_expanded (nodes s2 ! i))"
    using m l f1 f2 d e1 e2 by blast
qed

theorem expansion_completeness_witness:
  "iterate nim [(0, [])] (fresh nim (1, 2)) = Some (Inr (nim_after1, [1])) \<and>
   iterate nim [(0, []), (0, [])] nim_after1 = Some (Inr (nim_after3, [1, 1])) \<and>
   is_fully_expanded (nodes nim_after1 ! 0) \<and>
   mset (child_actions (nodes nim_after1) 0) = mset (actions nim (state (nodes nim_after1 ! 0))) \<and>
   expand nim 0 (nodes nim_after1) 0 = Inl IndexError \<and>
   is_fully_expanded (nodes nim_after3 ! 0)"
proof -
  note th = expansion_completeness [OF nim_run1 nim_run2]
  have len: "0 < length (nodes nim_after1)" by (simp add: nim_after1_def)
  have fe: "is_fully_expanded (nodes nim_after1 ! 0)"
    by (simp add: nim_after1_def is_fully_expanded_def)
  have a: "mset (child_actions (nodes nim_after1) 0) = mset (actions nim (state (nodes nim_after1 ! 0)))"
    using th len fe by blast
  have b: "expand nim 0 (nodes nim_after1) 0 = Inl IndexError" using th len fe by blast
  have c: "is_fully_expanded (nodes nim_after3 ! 0)" using th len fe by blast
  show ?thesis using nim_run1 nim_run2 fe a b c by blast
qed










end
